theory Spec2Isabelle
  imports Main "HOL-Library.Multiset" "HOL-Library.Sublist"
begin

section \<open>Stream combinators (torchdata/datapipes/iter/util/combining.py)\<close>

subsection \<open>Errors and source pipes\<close>

text \<open>
  The exceptions the two source files raise, as values. A raise is the \<open>Inl\<close> branch
  of a sum (or the \<open>Some\<close> of an error option carried next to the state reached).
\<close>

datatype py_error =
  BufferError | ValueError | KeyError | TypeError | ZeroDivisionError
  | RuntimeError | AssertionError | IndexError

text \<open>
  A pipe, as the combinators use it: the items one iteration pass produces, and what
  \<open>len\<close> answers (\<open>None\<close> when the pipe has no \<open>__len__\<close>, where Python raises
  \<open>TypeError\<close>).
\<close>

record 'a datapipe =
  dp_items :: "'a list"
  dp_len :: "int option"

definition len_dp :: "'a datapipe \<Rightarrow> py_error + int" where
  "len_dp p = (case dp_len p of None \<Rightarrow> Inl TypeError | Some n \<Rightarrow> Inr n)"

text \<open>\<open>IterableWrapper(xs)\<close>: iterates \<open>xs\<close> and reports its length.\<close>

definition IterableWrapper :: "'a list \<Rightarrow> 'a datapipe" where
  "IterableWrapper xs = \<lparr>dp_items = xs, dp_len = Some (int (length xs))\<rparr>"

subsection \<open>IterKeyZipperIterDataPipe (zip_with_iter)\<close>

text \<open>
  The fields \<open>__init__\<close> stores. \<open>merge_fn\<close> and \<open>buffer_size\<close> are optional in the
  source (\<open>None\<close> for pairing and for an unbounded buffer). \<open>ref_key_fn\<close> is the
  function stored in \<open>self.ref_key_fn\<close>, that is \<open>key_fn\<close> itself when the caller gave
  none. The mutable field \<open>self.buffer\<close> lives in the iteration state below.
\<close>

record ('a, 'b, 'k, 'r) IterKeyZipper =
  source_datapipe :: "'a datapipe"
  ref_datapipe :: "'b datapipe"
  key_fn :: "'a \<Rightarrow> 'k"
  ref_key_fn :: "'b \<Rightarrow> 'k"
  keep_key :: bool
  buffer_size :: "int option"
  merge_fn :: "('a \<Rightarrow> 'b \<Rightarrow> 'r) option"

text \<open>\<open>__init__\<close>: the only check on values is the one on \<open>buffer_size\<close>.\<close>

definition IterKeyZipper_init ::
  "'a datapipe \<Rightarrow> 'b datapipe \<Rightarrow> ('a \<Rightarrow> 'k) \<Rightarrow> ('b \<Rightarrow> 'k) \<Rightarrow> bool \<Rightarrow> int option
    \<Rightarrow> ('a \<Rightarrow> 'b \<Rightarrow> 'r) option \<Rightarrow> py_error + ('a, 'b, 'k, 'r) IterKeyZipper" where
  "IterKeyZipper_init src rf kf rkf kk bs mf =
     (case bs of
        Some n \<Rightarrow>
          if n \<le> 0 then Inl ValueError
          else Inr \<lparr>source_datapipe = src, ref_datapipe = rf, key_fn = kf, ref_key_fn = rkf,
                    keep_key = kk, buffer_size = bs, merge_fn = mf\<rparr>
      | None \<Rightarrow>
          Inr \<lparr>source_datapipe = src, ref_datapipe = rf, key_fn = kf, ref_key_fn = rkf,
               keep_key = kk, buffer_size = bs, merge_fn = mf\<rparr>)"

text \<open>
  What one iteration yields: \<open>merge_fn(data, ref)\<close> or the pair \<open>(data, ref)\<close>,
  alone or next to the key.
\<close>

datatype ('a, 'b, 'r) merged = Merged 'r | Paired 'a 'b

datatype ('k, 'v) yielded = Plain 'v | WithKey 'k 'v

text \<open>
  The state of one pass of \<open>__iter__\<close>: the rest of \<open>ref_it\<close>, \<open>warn_once_flag\<close>
  and \<open>self.buffer\<close> (an \<open>OrderedDict\<close>: an association list in insertion order).
  The three last fields are traces of the effects the pass has on the outside: the
  number of \<open>warnings.warn\<close> calls, the items handed to \<open>janitor\<close>, and the entries
  \<open>popitem(last=False)\<close> removed.
\<close>

record ('k, 'b) iter_state =
  ref_it :: "'b list"
  warn_once_flag :: bool
  buffer :: "('k \<times> 'b) list"
  warned :: nat
  janitored :: "'b list"
  evicted :: "('k \<times> 'b) list"

definition in_buffer :: "'k \<Rightarrow> ('k \<times> 'b) list \<Rightarrow> bool" where
  "in_buffer k b = (k \<in> set (map fst b))"

text \<open>\<open>self.buffer.pop(key)\<close>: the value under the key and the buffer without it.\<close>

fun buffer_pop :: "'k \<Rightarrow> ('k \<times> 'b) list \<Rightarrow> ('b \<times> ('k \<times> 'b) list) option" where
  "buffer_pop k [] = None"
| "buffer_pop k ((k', v) # b) =
     (if k = k' then Some (v, b)
      else (case buffer_pop k b of None \<Rightarrow> None | Some (w, b') \<Rightarrow> Some (w, (k', v) # b')))"

text \<open>
  Lines 103 to 110: when the buffer is bounded and holds more than \<open>buffer_size\<close>
  entries, warn (once) and drop the entry inserted first. \<open>popitem\<close> on an empty
  \<open>OrderedDict\<close> raises \<open>KeyError\<close>. The result is the state reached and the error
  raised, if one was.
\<close>

definition evict_step ::
  "int option \<Rightarrow> ('k, 'b) iter_state \<Rightarrow> ('k, 'b) iter_state \<times> py_error option" where
  "evict_step bs s =
     (case bs of
        None \<Rightarrow> (s, None)
      | Some n \<Rightarrow>
          if int (length (buffer s)) > n then
            (let s1 = (if warn_once_flag s
                       then s\<lparr>warn_once_flag := False, warned := Suc (warned s)\<rparr> else s)
             in case buffer s1 of
                  [] \<Rightarrow> (s1, Some KeyError)
                | e # b \<Rightarrow> (s1\<lparr>buffer := b, evicted := evicted s1 @ [e]\<rparr>, None))
          else (s, None))"

text \<open>
  The inner loop \<open>while key not in self.buffer\<close> (lines 92 to 111), by recursion on
  what is left of \<open>ref_it\<close>. It returns the state it stops in, with the error it
  raised if it raised one.
\<close>

fun while_loop ::
  "('b \<Rightarrow> 'k) \<Rightarrow> int option \<Rightarrow> 'k \<Rightarrow> 'b list \<Rightarrow> ('k, 'b) iter_state
    \<Rightarrow> ('k, 'b) iter_state \<times> py_error option" where
  "while_loop rkf bs key [] s =
     (if in_buffer key (buffer s) then (s\<lparr>ref_it := []\<rparr>, None)
      else (s\<lparr>ref_it := []\<rparr>, Some BufferError))"
| "while_loop rkf bs key (ref_data # rest) s =
     (if in_buffer key (buffer s) then (s\<lparr>ref_it := ref_data # rest\<rparr>, None)
      else
        (let ref_key = rkf ref_data in
         if in_buffer ref_key (buffer s) then (s\<lparr>ref_it := rest\<rparr>, Some ValueError)
         else
           (case evict_step bs s of
              (s1, Some e) \<Rightarrow> (s1\<lparr>ref_it := rest\<rparr>, Some e)
            | (s1, None) \<Rightarrow>
                while_loop rkf bs key rest (s1\<lparr>buffer := buffer s1 @ [(ref_key, ref_data)]\<rparr>))))"

text \<open>Lines 112 to 116: the value yielded for \<open>data\<close> once its match is popped.\<close>

definition make_result ::
  "('a, 'b, 'k, 'r) IterKeyZipper \<Rightarrow> 'k \<Rightarrow> 'a \<Rightarrow> 'b \<Rightarrow> ('k, ('a, 'b, 'r) merged) yielded" where
  "make_result z key data v =
     (let res = (case merge_fn z of Some f \<Rightarrow> Merged (f data v) | None \<Rightarrow> Paired data v)
      in if keep_key z then WithKey key res else Plain res)"

text \<open>
  The body of \<open>for data in self.source_datapipe\<close> for one item: either the error
  raised with the state at the raise, or the value yielded with the state at the
  \<open>yield\<close>.
\<close>

definition loop_body ::
  "('a, 'b, 'k, 'r) IterKeyZipper \<Rightarrow> 'a \<Rightarrow> ('k, 'b) iter_state
    \<Rightarrow> (py_error \<times> ('k, 'b) iter_state) + (('k, ('a, 'b, 'r) merged) yielded \<times> ('k, 'b) iter_state)" where
  "loop_body z data s =
     (let key = key_fn z data in
      case while_loop (ref_key_fn z) (buffer_size z) key (ref_it s) s of
        (s1, Some e) \<Rightarrow> Inl (e, s1)
      | (s1, None) \<Rightarrow>
          (case buffer_pop key (buffer s1) of
             None \<Rightarrow> Inl (KeyError, s1)
           | Some (v, b) \<Rightarrow> Inr (make_result z key data v, s1\<lparr>buffer := b\<rparr>)))"

text \<open>
  The \<open>finally\<close> block (lines 117 to 123): every value left in the buffer goes to
  \<open>janitor\<close>, in buffer order, and the buffer is cleared.
\<close>

definition finally_block :: "('k, 'b) iter_state \<Rightarrow> ('k, 'b) iter_state" where
  "finally_block s = s\<lparr>janitored := janitored s @ map snd (buffer s), buffer := []\<rparr>"

text \<open>
  What a consumer observes of one pass: the values yielded, the error that ended the
  pass if one did, and the state after the \<open>finally\<close> block.
\<close>

record ('y, 'k, 'b) outcome =
  yields :: "'y list"
  raised :: "py_error option"
  final :: "('k, 'b) iter_state"

text \<open>The pass run to its end (\<open>list(dp)\<close>), by recursion on the source's items.\<close>

fun iter_loop ::
  "('a, 'b, 'k, 'r) IterKeyZipper \<Rightarrow> 'a list \<Rightarrow> ('k, 'b) iter_state
    \<Rightarrow> (('k, ('a, 'b, 'r) merged) yielded, 'k, 'b) outcome" where
  "iter_loop z [] s = \<lparr>yields = [], raised = None, final = finally_block s\<rparr>"
| "iter_loop z (data # rest) s =
     (case loop_body z data s of
        Inl (e, s1) \<Rightarrow> \<lparr>yields = [], raised = Some e, final = finally_block s1\<rparr>
      | Inr (y, s1) \<Rightarrow> (let r = iter_loop z rest s1 in r\<lparr>yields := y # yields r\<rparr>))"


text \<open>
  The state a new pass starts in: \<open>reset\<close> has emptied \<open>self.buffer\<close>, \<open>ref_it\<close> is
  a fresh iterator over the reference pipe and \<open>warn_once_flag\<close> is \<open>True\<close>.
\<close>

definition iter_start :: "('a, 'b, 'k, 'r) IterKeyZipper \<Rightarrow> ('k, 'b) iter_state" where
  "iter_start z = \<lparr>ref_it = dp_items (ref_datapipe z), warn_once_flag = True, buffer = [],
                   warned = 0, janitored = [], evicted = []\<rparr>"

definition IterKeyZipper_iter ::
  "('a, 'b, 'k, 'r) IterKeyZipper \<Rightarrow> (('k, ('a, 'b, 'r) merged) yielded, 'k, 'b) outcome" where
  "IterKeyZipper_iter z = iter_loop z (dp_items (source_datapipe z)) (iter_start z)"

text \<open>\<open>__len__\<close> (line 126).\<close>

definition IterKeyZipper_len :: "('a, 'b, 'k, 'r) IterKeyZipper \<Rightarrow> py_error + int" where
  "IterKeyZipper_len z = len_dp (source_datapipe z)"

subsection \<open>MapKeyZipperIterDataPipe (zip_with_map)\<close>

text \<open>
  A \<open>MapDataPipe\<close> is a random-access source: \<open>map_datapipe[key]\<close> gives the item or
  raises \<open>KeyError\<close>/\<open>IndexError\<close>; it is a partial map here.
\<close>

record ('a, 'k, 'v, 'r) MapKeyZipper =
  source_iterdatapipe :: "'a datapipe"
  map_datapipe :: "'k \<rightharpoonup> 'v"
  mkey_fn :: "'a \<Rightarrow> 'k"
  mmerge_fn :: "('a \<Rightarrow> 'v \<Rightarrow> 'r) option"
  mkeep_key :: bool

text \<open>Lines 232 to 236: the value yielded for \<open>item\<close> and its \<open>map_item\<close>.\<close>

definition map_make_result ::
  "('a, 'k, 'v, 'r) MapKeyZipper \<Rightarrow> 'k \<Rightarrow> 'a \<Rightarrow> 'v \<Rightarrow> ('k, ('a, 'v, 'r) merged) yielded" where
  "map_make_result z key item map_item =
     (let res = (case mmerge_fn z of Some f \<Rightarrow> Merged (f item map_item)
                                   | None \<Rightarrow> Paired item map_item)
      in if mkeep_key z then WithKey key res else Plain res)"

text \<open>
  \<open>__iter__\<close> (lines 225 to 236) run to its end: the values yielded, and the
  \<open>KeyError\<close> that ended the pass if a lookup failed.
\<close>

fun map_iter_loop ::
  "('a, 'k, 'v, 'r) MapKeyZipper \<Rightarrow> 'a list
    \<Rightarrow> ('k, ('a, 'v, 'r) merged) yielded list \<times> py_error option" where
  "map_iter_loop z [] = ([], None)"
| "map_iter_loop z (item # rest) =
     (let key = mkey_fn z item in
      case map_datapipe z key of
        None \<Rightarrow> ([], Some KeyError)
      | Some map_item \<Rightarrow>
          (let r = map_iter_loop z rest
           in (map_make_result z key item map_item # fst r, snd r)))"

definition MapKeyZipper_iter ::
  "('a, 'k, 'v, 'r) MapKeyZipper \<Rightarrow> ('k, ('a, 'v, 'r) merged) yielded list \<times> py_error option" where
  "MapKeyZipper_iter z = map_iter_loop z (dp_items (source_iterdatapipe z))"

text \<open>\<open>__len__\<close> (line 239).\<close>

definition MapKeyZipper_len :: "('a, 'k, 'v, 'r) MapKeyZipper \<Rightarrow> py_error + int" where
  "MapKeyZipper_len z = len_dp (source_iterdatapipe z)"

subsection \<open>RoundRobinDemultiplexerIterDataPipe (round_robin_demux)\<close>

text \<open>\<open>datapipe.enumerate()\<close>: each item paired with its position, from 0.\<close>

definition enumerate_dp :: "'a list \<Rightarrow> (int \<times> 'a) list" where
  "enumerate_dp xs = zip (map int [0..<length xs]) xs"

text \<open>\<open>_round_robin_fn\<close> (lines 292 to 294); \<open>%\<close> on Python integers is \<open>mod\<close> on \<open>int\<close>.\<close>

definition round_robin_fn :: "int \<Rightarrow> int \<times> 'a \<Rightarrow> int" where
  "round_robin_fn num_instances idx_data = fst idx_data mod num_instances"

definition drop_index :: "int \<times> 'a \<Rightarrow> 'a" where
  "drop_index idx_data = snd idx_data"

text \<open>
  \<open>get_length_by_instance\<close> (lines 296 to 299), from \<open>n = len(self.main_datapipe)\<close>.
  \<open>//\<close> by zero raises.
\<close>

definition get_length_by_instance :: "int \<Rightarrow> int \<Rightarrow> int \<Rightarrow> py_error + int" where
  "get_length_by_instance n num_instances instance_id =
     (if num_instances = 0 then Inl ZeroDivisionError
      else
        (let avg_length = n div num_instances
         in if n - avg_length * num_instances > instance_id then Inr (avg_length + 1)
            else Inr avg_length))"

text \<open>
  Modelled from the spec: the routing of the demultiplexer the splitter is built on
  (\<open>_DemultiplexerIterDataPipe\<close> and \<open>_ChildDataPipe\<close> of the torch library, not part
  of this repository): branch \<open>i\<close> receives, in source order, the items the
  classifier sends to \<open>i\<close> (\<open>drop_none = False\<close>; the shared buffer is taken large
  enough). \<open>__new__\<close> (lines 274 to 285) enumerates the source, classifies with
  \<open>_round_robin_fn\<close> and maps \<open>_drop_index\<close> over every branch.
\<close>

definition demux_branch :: "('x \<Rightarrow> int) \<Rightarrow> int \<Rightarrow> 'x list \<Rightarrow> 'x list" where
  "demux_branch classifier_fn i xs = filter (\<lambda>x. classifier_fn x = i) xs"

definition round_robin_demux :: "'a list \<Rightarrow> int \<Rightarrow> py_error + 'a list list" where
  "round_robin_demux xs num_instances =
     (if num_instances < 1 then Inl ValueError
      else if num_instances = 1 then Inr [xs]
      else Inr (map (\<lambda>i. map drop_index
                       (demux_branch (round_robin_fn num_instances) (int i) (enumerate_dp xs)))
                 [0..<nat num_instances]))"

subsection \<open>The examples of the docstrings\<close>

text \<open>
  The example of \<open>IterKeyZipperIterDataPipe\<close>, with \<open>keep_key\<close> left at its default
  \<open>False\<close> and the default \<open>buffer_size\<close>.
\<close>

definition zip_with_iter_example :: "(string \<times> int, string \<times> int, string, int) IterKeyZipper" where
  "zip_with_iter_example =
     \<lparr>source_datapipe = IterableWrapper [(''a'', 100), (''b'', 200), (''c'', 300)],
      ref_datapipe = IterableWrapper [(''a'', 1), (''b'', 2), (''c'', 3), (''d'', 4)],
      key_fn = fst, ref_key_fn = fst, keep_key = False, buffer_size = Some 10000,
      merge_fn = Some (\<lambda>t1 t2. snd t1 + snd t2)\<rparr>"

text \<open>The example of \<open>MapKeyZipperIterDataPipe\<close>.\<close>

definition zip_with_map_example :: "(string \<times> int, string, int, string \<times> int) MapKeyZipper" where
  "zip_with_map_example =
     \<lparr>source_iterdatapipe = IterableWrapper [(''a'', 1), (''b'', 2), (''c'', 3)],
      map_datapipe = [''a'' \<mapsto> 100, ''b'' \<mapsto> 200, ''c'' \<mapsto> 300, ''d'' \<mapsto> 400],
      mkey_fn = fst, mmerge_fn = Some (\<lambda>t v. (fst t, snd t + v)), mkeep_key = False\<rparr>"


text \<open>
  A pass that evicts: with \<open>buffer_size = 1\<close> the entry of key \<open>a\<close> is dropped while
  the match of \<open>c\<close> is looked for, and \<open>a\<close> then finds no match.
\<close>

definition eviction_example :: "(string \<times> int, string \<times> int, string, int) IterKeyZipper" where
  "eviction_example =
     \<lparr>source_datapipe = IterableWrapper [(''c'', 30), (''a'', 10)],
      ref_datapipe = IterableWrapper [(''a'', 1), (''b'', 2), (''c'', 3)],
      key_fn = fst, ref_key_fn = fst, keep_key = False, buffer_size = Some 1,
      merge_fn = Some (\<lambda>t1 t2. snd t1 + snd t2)\<rparr>"

text \<open>A pass whose only key finds no match, with \<open>buffer_size = 1\<close>.\<close>

definition overflow_example :: "(string \<times> int, string \<times> int, string, int) IterKeyZipper" where
  "overflow_example =
     \<lparr>source_datapipe = IterableWrapper [(''z'', 0)],
      ref_datapipe = IterableWrapper [(''a'', 1), (''b'', 2)],
      key_fn = fst, ref_key_fn = fst, keep_key = False, buffer_size = Some 1,
      merge_fn = Some (\<lambda>t1 t2. snd t1 + snd t2)\<rparr>"





subsection \<open>Invariants of the join buffer\<close>

text \<open>
  Every entry of the buffer is stored under the key \<open>ref_key_fn\<close> gives its item, and
  the item comes from \<open>A\<close> (the items of the reference pipe).
\<close>

definition keyed :: "('b \<Rightarrow> 'k) \<Rightarrow> 'b set \<Rightarrow> ('k \<times> 'b) list \<Rightarrow> bool" where
  "keyed rkf A b = list_all (\<lambda>(k, v). k = rkf v \<and> v \<in> A) b"

text \<open>
  The keys of the buffer and of the rest of the reference stream are pairwise distinct,
  and a key that was evicted or matched (\<open>M\<close>) is neither buffered nor still to come.
\<close>

definition key_inv :: "('b \<Rightarrow> 'k) \<Rightarrow> 'b list \<Rightarrow> ('k, 'b) iter_state \<Rightarrow> 'k set \<Rightarrow> bool" where
  "key_inv rkf refs s M =
     (distinct (map fst (buffer s) @ map rkf refs)
      \<and> (fst ` set (evicted s) \<union> M) \<inter> (fst ` set (buffer s) \<union> rkf ` set refs) = {}
      \<and> fst ` set (evicted s) \<inter> M = {})"


text \<open>
  The evicted items followed by the buffered ones are, in this order, a subsequence of
  the part \<open>C\<close> of the reference stream \<open>R\<close> that was pulled: every evicted item
  was inserted before every item still buffered.
\<close>

definition fifo_inv :: "'b list \<Rightarrow> ('k, 'b) iter_state \<Rightarrow> bool" where
  "fifo_inv R s = (\<exists>C. R = C @ ref_it s \<and> subseq (map snd (evicted s) @ map snd (buffer s)) C)"



section \<open>Graph queries (torchdata/dataloader2/graph/utils.py)\<close>

subsection \<open>Classes and graphs\<close>

text \<open>
  A Python class, with its direct bases. \<open>type(dp) is dp_type\<close> is equality of classes;
  \<open>issubclass\<close> (what \<open>isinstance\<close> would test) follows the bases.
\<close>

datatype pyclass = PyClass string "pyclass list"

fun class_bases :: "pyclass \<Rightarrow> pyclass list" where
  "class_bases (PyClass name bases) = bases"

fun issubclass :: "pyclass \<Rightarrow> pyclass \<Rightarrow> bool" where
  "issubclass (PyClass name bases) T =
     (PyClass name bases = T \<or> list_ex (\<lambda>b. issubclass b T) bases)"

text \<open>
  \<open>DataPipeGraph = Dict[int, Tuple[DataPipe, DataPipeGraph]]\<close>: the entries of the
  dictionary in its iteration order, each the key \<open>dp_id\<close>, the pipe \<open>dp\<close> and the
  graph of the pipes \<open>dp\<close> reads from. The type \<open>'p\<close> of the pipes is left open:
  the queries only take \<open>id\<close> and \<open>type\<close> of a pipe, which are parameters below.
\<close>

datatype 'p graph = Graph "(nat \<times> 'p \<times> 'p graph) list"

fun items :: "'p graph \<Rightarrow> (nat \<times> 'p \<times> 'p graph) list" where
  "items (Graph es) = es"

subsection \<open>find_dps\<close>

text \<open>
  \<open>helper\<close> (lines 24 to 31), with the two variables it closes over, \<open>cache\<close> and
  \<open>dps\<close>, as a state that is passed along: the loop over \<open>g.items()\<close> is
  \<open>helper_items\<close>.
\<close>

fun helper :: "('p \<Rightarrow> pyclass) \<Rightarrow> pyclass \<Rightarrow> 'p graph \<Rightarrow> nat set \<times> 'p list \<Rightarrow> nat set \<times> 'p list"
  and helper_items ::
    "('p \<Rightarrow> pyclass) \<Rightarrow> pyclass \<Rightarrow> (nat \<times> 'p \<times> 'p graph) list \<Rightarrow> nat set \<times> 'p list
      \<Rightarrow> nat set \<times> 'p list" where
  "helper type_of dp_type (Graph es) st = helper_items type_of dp_type es st"
| "helper_items type_of dp_type [] st = st"
| "helper_items type_of dp_type ((dp_id, dp, src_graph) # es) st =
     (if dp_id \<in> fst st then helper_items type_of dp_type es st
      else helper_items type_of dp_type es
             (helper type_of dp_type src_graph
                (insert dp_id (fst st),
                 if type_of dp = dp_type then snd st @ [dp] else snd st)))"

definition find_dps :: "('p \<Rightarrow> pyclass) \<Rightarrow> 'p graph \<Rightarrow> pyclass \<Rightarrow> 'p list" where
  "find_dps type_of graph dp_type = snd (helper type_of dp_type graph ({}, []))"

subsection \<open>list_dps\<close>

text \<open>The size of a graph: the measure on which the queue of the search decreases.\<close>

fun gsize :: "'p graph \<Rightarrow> nat" where
  "gsize (Graph es) = Suc (sum_list (map (\<lambda>(i, d, g). gsize g) es))"

text \<open>
  The two \<open>for\<close> loops that fill the queue (lines 65 to 68 and 73 to 76): an entry
  whose key is not in \<open>cache\<close> is appended and its key added to \<open>cache\<close>.
\<close>

fun enqueue ::
  "(nat \<times> 'p \<times> 'p graph) list \<Rightarrow> (nat \<times> 'p \<times> 'p graph) list \<times> nat set
    \<Rightarrow> (nat \<times> 'p \<times> 'p graph) list \<times> nat set" where
  "enqueue [] qc = qc"
| "enqueue ((dp_id, dp, subgraph) # es) qc =
     (if dp_id \<notin> snd qc
      then enqueue es (fst qc @ [(dp_id, dp, subgraph)], insert dp_id (snd qc))
      else enqueue es qc)"

definition qsize :: "(nat \<times> 'p \<times> 'p graph) list \<Rightarrow> nat" where
  "qsize q = sum_list (map (\<lambda>(i, d, g). gsize g) q)"

lemma qsize_simps [simp]:
  "qsize [] = 0" "qsize ((i, d, g) # q) = gsize g + qsize q" "qsize (q @ q') = qsize q + qsize q'"
  by (simp_all add: qsize_def)

lemma enqueue_qsize: "qsize (fst (enqueue es qc)) \<le> qsize (fst qc) + qsize es"
proof (induction es arbitrary: qc)
  case Nil
  then show ?case by simp
next
  case (Cons e es)
  obtain i d g where e: "e = (i, d, g)" by (cases e)
  show ?case
  proof (cases "i \<in> snd qc")
    case True
    with Cons.IH [of qc] e show ?thesis by simp
  next
    case False
    with Cons.IH [of "(fst qc @ [(i, d, g)], insert i (snd qc))"] e show ?thesis by simp
  qed
qed

text \<open>The loop \<open>while len(q) > 0\<close> (lines 70 to 76).\<close>

function bfs_loop ::
  "(nat \<times> 'p \<times> 'p graph) list \<Rightarrow> nat set \<Rightarrow> 'p list \<Rightarrow> 'p list" where
  "bfs_loop [] cache dps = dps"
| "bfs_loop ((dp_id, dp, subgraph) # q) cache dps =
     (let qc = enqueue (items subgraph) (q, cache)
      in bfs_loop (fst qc) (snd qc) (dps @ [dp]))"
  by pat_completeness auto
termination
proof (relation "measure (\<lambda>(q, cache, dps). qsize q)")
  show "wf (measure (\<lambda>(q, cache, dps). qsize q))" by simp
next
  fix dp_id :: nat and dp :: 'p and subgraph :: "'p graph" and q cache dps qc
  assume qc: "qc = enqueue (items subgraph) (q, cache)"
  have "qsize (fst qc) \<le> qsize q + qsize (items subgraph)"
    unfolding qc using enqueue_qsize [of "items subgraph" "(q, cache)"] by simp
  moreover have "qsize (items subgraph) < gsize subgraph"
    by (cases subgraph) (simp add: qsize_def)
  ultimately show "((fst qc, snd qc, dps @ [dp]), (dp_id, dp, subgraph) # q, cache, dps)
      \<in> measure (\<lambda>(q, cache, dps). qsize q)"
    by simp
qed

text \<open>
  The argument \<open>exclude_dps\<close>: \<open>None\<close>, one pipe, or a list of pipes. \<open>list_dps_all\<close>
  is the body of \<open>list_dps\<close> from line 63 on, for a given \<open>cache\<close>; \<open>exclude_loop\<close>
  is the loop of lines 55 to 61, which calls \<open>list_dps\<close> on the traversal of each excluded
  pipe (without exclusion, so with an empty cache). \<open>traverse_dps\<close> is not part of
  this repository (it is torch's) and is a parameter.
\<close>

datatype 'p exclude_arg = NoExclude | OneDataPipe 'p | DataPipes "'p list"

definition list_dps_all :: "'p graph \<Rightarrow> nat set \<Rightarrow> 'p list" where
  "list_dps_all graph cache =
     (let qc = enqueue (items graph) ([], cache) in bfs_loop (fst qc) (snd qc) [])"

fun exclude_loop :: "('p \<Rightarrow> nat) \<Rightarrow> ('p \<Rightarrow> 'p graph) \<Rightarrow> 'p list \<Rightarrow> nat set \<Rightarrow> nat set" where
  "exclude_loop id_of traverse_dps [] cache = cache"
| "exclude_loop id_of traverse_dps (exclude_dp # rest) cache =
     (if id_of exclude_dp \<in> cache then exclude_loop id_of traverse_dps rest cache
      else exclude_loop id_of traverse_dps rest
             (cache \<union> id_of ` set (list_dps_all (traverse_dps exclude_dp) {})))"

fun exclude_list :: "'p exclude_arg \<Rightarrow> 'p list" where
  "exclude_list NoExclude = []"
| "exclude_list (OneDataPipe dp) = [dp]"
| "exclude_list (DataPipes dps) = dps"

definition list_dps ::
  "('p \<Rightarrow> nat) \<Rightarrow> ('p \<Rightarrow> 'p graph) \<Rightarrow> 'p graph \<Rightarrow> 'p exclude_arg \<Rightarrow> 'p list" where
  "list_dps id_of traverse_dps graph exclude_dps =
     list_dps_all graph (exclude_loop id_of traverse_dps (exclude_list exclude_dps) {})"

subsection \<open>Breadth-first order, level by level\<close>

text \<open>
  The order \<open>list_dps\<close> is compared with: the pipes of one level of the search (the
  frontier), then the pipes their subgraphs hold that were not seen before, in the
  order of the frontier and of each subgraph, and so on. \<open>expand\<close> computes the next
  frontier.
\<close>

fun expand ::
  "(nat \<times> 'p \<times> 'p graph) list \<Rightarrow> (nat \<times> 'p \<times> 'p graph) list \<times> nat set
    \<Rightarrow> (nat \<times> 'p \<times> 'p graph) list \<times> nat set" where
  "expand [] qc = qc"
| "expand ((dp_id, dp, subgraph) # frontier) qc = expand frontier (enqueue (items subgraph) qc)"

lemma expand_qsize:
  "qsize (fst (expand fr qc)) \<le> qsize (fst qc) + sum_list (map (\<lambda>(i, d, g). qsize (items g)) fr)"
proof (induction fr arbitrary: qc)
  case Nil
  then show ?case by simp
next
  case (Cons e fr)
  obtain i d g where e: "e = (i, d, g)" by (cases e)
  from Cons.IH [of "enqueue (items g) qc"] enqueue_qsize [of "items g" qc] e
  show ?case by simp
qed

lemma qsize_items_less:
  "fr \<noteq> [] \<Longrightarrow> sum_list (map (\<lambda>(i, d, g). qsize (items g)) fr) < qsize fr"
proof (induction fr)
  case Nil
  then show ?case by simp
next
  case (Cons e fr)
  obtain i d g where e: "e = (i, d, g)" by (cases e)
  have "qsize (items g) < gsize g" by (cases g) (simp add: qsize_def)
  moreover have "sum_list (map (\<lambda>(i, d, g). qsize (items g)) fr) \<le> qsize fr"
    using Cons.IH by (cases fr) auto
  ultimately show ?case using e by simp
qed

function bfs_levels ::
  "(nat \<times> 'p \<times> 'p graph) list \<Rightarrow> nat set \<Rightarrow> (nat \<times> 'p \<times> 'p graph) list list" where
  "bfs_levels frontier cache =
     (if frontier = [] then []
      else frontier #
        (let qc = expand frontier ([], cache) in bfs_levels (fst qc) (snd qc)))"
  by pat_completeness auto
termination
proof (relation "measure (\<lambda>(frontier, cache). qsize frontier)")
  show "wf (measure (\<lambda>(frontier, cache). qsize frontier))" by simp
next
  fix frontier :: "(nat \<times> 'p \<times> 'p graph) list" and cache qc
  assume ne: "frontier \<noteq> []" and qc: "qc = expand frontier ([], cache)"
  from expand_qsize [of frontier "([], cache)"] qsize_items_less [OF ne]
  show "((fst qc, snd qc), frontier, cache) \<in> measure (\<lambda>(frontier, cache). qsize frontier)"
    unfolding qc by (simp add: case_prod_unfold)
qed

declare bfs_levels.simps [simp del]

text \<open>The entries at nesting depth \<open>k\<close> of a graph (its top level at depth 0).\<close>

fun at_depth :: "nat \<Rightarrow> 'p graph \<Rightarrow> (nat \<times> 'p \<times> 'p graph) list" where
  "at_depth 0 g = items g"
| "at_depth (Suc k) g = concat (map (\<lambda>(i, d, sub). items sub) (at_depth k g))"

text \<open>The levels of the search \<open>list_dps\<close> makes.\<close>

definition list_dps_levels ::
  "('p \<Rightarrow> nat) \<Rightarrow> ('p \<Rightarrow> 'p graph) \<Rightarrow> 'p graph \<Rightarrow> 'p exclude_arg
    \<Rightarrow> (nat \<times> 'p \<times> 'p graph) list list" where
  "list_dps_levels id_of traverse_dps graph exclude_dps =
     (let cache = exclude_loop id_of traverse_dps (exclude_list exclude_dps) {};
          qc = enqueue (items graph) ([], cache)
      in bfs_levels (fst qc) (snd qc))"


subsection \<open>Well-formed graphs\<close>

text \<open>
  All entries of a graph, at every depth. A graph is well formed when every key is the
  \<open>id\<close> of the pipe stored under it and two entries with the same key are the same
  entry (the same pipe with the same subgraph), as in a graph that was built by one
  traversal of pipes that do not depend on themselves.
\<close>

fun all_entries :: "'p graph \<Rightarrow> (nat \<times> 'p \<times> 'p graph) list"
  and all_entries_items :: "(nat \<times> 'p \<times> 'p graph) list \<Rightarrow> (nat \<times> 'p \<times> 'p graph) list" where
  "all_entries (Graph es) = all_entries_items es"
| "all_entries_items [] = []"
| "all_entries_items ((dp_id, dp, src_graph) # es) =
     (dp_id, dp, src_graph) # all_entries src_graph @ all_entries_items es"

definition keys_of :: "'p graph \<Rightarrow> nat set" where
  "keys_of g = fst ` set (all_entries g)"

definition wf_graph :: "('p \<Rightarrow> nat) \<Rightarrow> 'p graph \<Rightarrow> bool" where
  "wf_graph id_of g =
     (list_all (\<lambda>(dp_id, dp, src_graph). dp_id = id_of dp) (all_entries g)
      \<and> list_all (\<lambda>e. list_all (\<lambda>e'. fst e = fst e' \<longrightarrow> e = e') (all_entries g))
           (all_entries g))"

definition consistent :: "'p graph \<Rightarrow> bool" where
  "consistent G = (\<forall>e\<in>set (all_entries G). \<forall>e'\<in>set (all_entries G). fst e = fst e' \<longrightarrow> e = e')"

definition cache_inv :: "'p graph \<Rightarrow> nat set \<Rightarrow> nat \<Rightarrow> bool" where
  "cache_inv G c n =
     (\<forall>e\<in>set (all_entries G). fst e \<in> c \<longrightarrow> keys_of (snd (snd e)) \<subseteq> c \<or> n \<le> gsize (snd (snd e)))"

definition fresh_complete :: "'p graph \<Rightarrow> nat set \<Rightarrow> nat set \<Rightarrow> bool" where
  "fresh_complete G c c' =
     (\<forall>e\<in>set (all_entries G). fst e \<in> c' - c \<longrightarrow> keys_of (snd (snd e)) \<subseteq> c')"


definition child_closed :: "'p graph \<Rightarrow> nat set \<Rightarrow> bool" where
  "child_closed G F =
     (\<forall>e\<in>set (all_entries G). fst e \<in> F \<longrightarrow> fst ` set (items (snd (snd e))) \<subseteq> F)"


subsection \<open>A pipeline with a shared source\<close>

text \<open>
  A zipper (pipe 1) over two mappers (pipes 2 and 3) that read from the same source
  (pipe 4); the class of pipe 3 is a subclass of the class of pipe 2.
\<close>

definition IterDataPipe_class :: pyclass where
  "IterDataPipe_class = PyClass ''IterDataPipe'' []"

definition Mapper_class :: pyclass where
  "Mapper_class = PyClass ''MapperIterDataPipe'' [IterDataPipe_class]"

definition MyMapper_class :: pyclass where
  "MyMapper_class = PyClass ''MyMapper'' [Mapper_class]"

definition Zipper_class :: pyclass where
  "Zipper_class = PyClass ''ZipperIterDataPipe'' [IterDataPipe_class]"

definition Wrapper_class :: pyclass where
  "Wrapper_class = PyClass ''IterableWrapperIterDataPipe'' [IterDataPipe_class]"

definition diamond_type :: "nat \<Rightarrow> pyclass" where
  "diamond_type p = (if p = 1 then Zipper_class else if p = 2 then Mapper_class
                     else if p = 3 then MyMapper_class else Wrapper_class)"

definition diamond_traverse :: "nat \<Rightarrow> nat graph" where
  "diamond_traverse p =
     (if p = 1 then Graph [(1, 1, Graph [(2, 2, Graph [(4, 4, Graph [])]),
                                        (3, 3, Graph [(4, 4, Graph [])])])]
      else if p = 2 then Graph [(2, 2, Graph [(4, 4, Graph [])])]
      else if p = 3 then Graph [(3, 3, Graph [(4, 4, Graph [])])]
      else Graph [(p, p, Graph [])])"

section \<open>The deep attribute rewriter (torchdata/dataloader2/graph/utils.py)\<close>

subsection \<open>Python values and the heap of pipes\<close>

text \<open>
  The values \<open>_assign_attr\<close> tells apart: a reference to a pipe (an instance of
  \<open>IterDataPipe\<close> or \<open>MapDataPipe\<close>, named by its address, which is its \<open>id\<close>), a
  \<open>dict\<close>, a \<open>tuple\<close>, a \<open>list\<close>, a \<open>set\<close> (its elements in iteration order), and
  any other object. Containers own their elements; pipes are shared, so a container
  holds a reference and the heap maps the address of a pipe to its \<open>__dict__\<close>, the
  attributes in insertion order. \<open>old_dp\<close> and \<open>new_dp\<close> are pipes, given by their
  addresses: \<open>obj is old_dp\<close> is \<open>obj = Ref old_dp\<close>.
\<close>

datatype pyval =
  Ref nat | Dict "(string \<times> pyval) list" | Tuple "pyval list" | List "pyval list"
  | Set "pyval list" | Atom string

type_synonym heap = "nat \<Rightarrow> (string \<times> pyval) list"

subsection \<open>_assign_attr\<close>

text \<open>
  \<open>_assign_attr\<close> (lines 162 to 215) with \<open>inner_dp = False\<close>, where a pipe is not
  entered and the heap is not touched. The result is the object as the call leaves it
  (containers are rewritten in place) and what the call returns (\<open>None\<close>, \<open>new_dp\<close> or
  a rebuilt tuple) or raises (\<open>set.remove\<close> of an absent element raises \<open>KeyError\<close>).
  Each \<open>for\<close> loop is a function of its own: \<open>dict_loop\<close> (lines 176 to 180, and
  the same loop over \<open>obj.__dict__\<close>, lines 169 to 173), \<open>tuple_loop0\<close> (lines 186 to
  192: the elements, \<open>temp_list\<close> and \<open>flag\<close>), \<open>list_loop0\<close> (lines 198 to 202) and
  \<open>set_loop0\<close> (lines 206 to 209: whether an element was found).
\<close>

fun assign_attr0 :: "nat \<Rightarrow> nat \<Rightarrow> pyval \<Rightarrow> pyval \<times> (py_error + pyval option)"
  and dict_loop :: "nat \<Rightarrow> nat \<Rightarrow> (string \<times> pyval) list \<Rightarrow> (string \<times> pyval) list \<times> py_error option"
  and tuple_loop0 :: "nat \<Rightarrow> nat \<Rightarrow> pyval list \<Rightarrow> pyval list \<times> pyval list \<times> bool \<times> py_error option"
  and list_loop0 :: "nat \<Rightarrow> nat \<Rightarrow> pyval list \<Rightarrow> pyval list \<times> py_error option"
  and set_loop0 :: "nat \<Rightarrow> nat \<Rightarrow> pyval list \<Rightarrow> pyval list \<times> bool \<times> py_error option" where
  "assign_attr0 old_dp new_dp (Ref r) =
     (Ref r, Inr (if r = old_dp then Some (Ref new_dp) else None))"
| "assign_attr0 old_dp new_dp (Dict kvs) =
     (case dict_loop old_dp new_dp kvs of
        (kvs', None) \<Rightarrow> (Dict kvs', Inr None)
      | (kvs', Some e) \<Rightarrow> (Dict kvs', Inl e))"
| "assign_attr0 old_dp new_dp (Tuple os) =
     (case tuple_loop0 old_dp new_dp os of
        (os', temp_list, flag, None) \<Rightarrow>
          (Tuple os', Inr (if flag then Some (Tuple temp_list) else None))
      | (os', temp_list, flag, Some e) \<Rightarrow> (Tuple os', Inl e))"
| "assign_attr0 old_dp new_dp (List os) =
     (case list_loop0 old_dp new_dp os of
        (os', None) \<Rightarrow> (List os', Inr None)
      | (os', Some e) \<Rightarrow> (List os', Inl e))"
| "assign_attr0 old_dp new_dp (Set os) =
     (case set_loop0 old_dp new_dp os of
        (os', found, Some e) \<Rightarrow> (Set os', Inl e)
      | (os', False, None) \<Rightarrow> (Set os', Inr None)
      | (os', True, None) \<Rightarrow>
          if Ref old_dp \<in> set os'
          then (Set (let rest = removeAll (Ref old_dp) os'
                     in if Ref new_dp \<in> set rest then rest else rest @ [Ref new_dp]), Inr None)
          else (Set os', Inl KeyError))"
| "assign_attr0 old_dp new_dp (Atom a) = (Atom a, Inr None)"
| "dict_loop old_dp new_dp [] = ([], None)"
| "dict_loop old_dp new_dp ((k, v) # rest) =
     (case assign_attr0 old_dp new_dp v of
        (v', Inl e) \<Rightarrow> ((k, v') # rest, Some e)
      | (v', Inr (Some new_obj)) \<Rightarrow> ((k, new_obj) # rest, None)
      | (v', Inr None) \<Rightarrow>
          (case dict_loop old_dp new_dp rest of (rest', e) \<Rightarrow> ((k, v') # rest', e)))"
| "tuple_loop0 old_dp new_dp [] = ([], [], False, None)"
| "tuple_loop0 old_dp new_dp (x # rest) =
     (case assign_attr0 old_dp new_dp x of
        (x', Inl e) \<Rightarrow> (x' # rest, [], False, Some e)
      | (x', Inr new_obj) \<Rightarrow>
          (case tuple_loop0 old_dp new_dp rest of
             (rest', temp_list, flag, e) \<Rightarrow>
               (x' # rest',
                (if new_obj \<noteq> None then Ref new_dp else x') # temp_list,
                new_obj \<noteq> None \<or> flag, e)))"
| "list_loop0 old_dp new_dp [] = ([], None)"
| "list_loop0 old_dp new_dp (x # rest) =
     (case assign_attr0 old_dp new_dp x of
        (x', Inl e) \<Rightarrow> (x' # rest, Some e)
      | (x', Inr (Some new_obj)) \<Rightarrow> (new_obj # rest, None)
      | (x', Inr None) \<Rightarrow>
          (case list_loop0 old_dp new_dp rest of (rest', e) \<Rightarrow> (x' # rest', e)))"
| "set_loop0 old_dp new_dp [] = ([], False, None)"
| "set_loop0 old_dp new_dp (x # rest) =
     (case assign_attr0 old_dp new_dp x of
        (x', Inl e) \<Rightarrow> (x' # rest, False, Some e)
      | (x', Inr (Some new_obj)) \<Rightarrow> (x' # rest, True, None)
      | (x', Inr None) \<Rightarrow>
          (case set_loop0 old_dp new_dp rest of (rest', found, e) \<Rightarrow> (x' # rest', found, e)))"



subsection \<open>First occurrence wins\<close>

text \<open>
  What the rewriter is compared with. A value is flat when it is a pipe or an opaque
  object, and simple when it is flat or a tuple of flat values. A simple value holds
  \<open>old_dp\<close> when it is \<open>old_dp\<close> or a tuple with \<open>old_dp\<close> among its elements;
  \<open>substitute\<close> puts \<open>new_dp\<close> for \<open>old_dp\<close> in it. \<open>first_wins\<close> rewrites the first
  slot of a sequence that holds \<open>old_dp\<close> and leaves every other slot.
\<close>

fun flat :: "pyval \<Rightarrow> bool" where
  "flat (Ref r) = True"
| "flat (Atom a) = True"
| "flat v = False"

fun simple :: "pyval \<Rightarrow> bool" where
  "simple (Tuple os) = list_all flat os"
| "simple v = flat v"

fun holds :: "nat \<Rightarrow> pyval \<Rightarrow> bool" where
  "holds old_dp (Ref r) = (r = old_dp)"
| "holds old_dp (Tuple os) = (Ref old_dp \<in> set os)"
| "holds old_dp v = False"

fun substitute :: "nat \<Rightarrow> nat \<Rightarrow> pyval \<Rightarrow> pyval" where
  "substitute old_dp new_dp (Ref r) = (if r = old_dp then Ref new_dp else Ref r)"
| "substitute old_dp new_dp (Tuple os) =
     Tuple (map (\<lambda>x. if x = Ref old_dp then Ref new_dp else x) os)"
| "substitute old_dp new_dp v = v"

fun first_wins :: "nat \<Rightarrow> nat \<Rightarrow> pyval list \<Rightarrow> pyval list" where
  "first_wins old_dp new_dp [] = []"
| "first_wins old_dp new_dp (v # vs) =
     (if holds old_dp v then substitute old_dp new_dp v # vs
      else v # first_wins old_dp new_dp vs)"

definition empty_heap :: heap where
  "empty_heap = (\<lambda>r. [])"

subsection \<open>Occurrences of a pipe and entered pipes\<close>

text \<open>
  The pipes a value refers to, in the order of a left-to-right walk through the
  containers (pipes are not entered). \<open>old_dp\<close> occurs in a value when it is one of
  them.
\<close>

fun refs_of :: "pyval \<Rightarrow> nat list"
  and refs_of_list :: "pyval list \<Rightarrow> nat list"
  and refs_of_dict :: "(string \<times> pyval) list \<Rightarrow> nat list" where
  "refs_of (Ref r) = [r]"
| "refs_of (Dict kvs) = refs_of_dict kvs"
| "refs_of (Tuple os) = refs_of_list os"
| "refs_of (List os) = refs_of_list os"
| "refs_of (Set os) = refs_of_list os"
| "refs_of (Atom a) = []"
| "refs_of_list [] = []"
| "refs_of_list (x # xs) = refs_of x @ refs_of_list xs"
| "refs_of_dict [] = []"
| "refs_of_dict ((k, v) # kvs) = refs_of v @ refs_of_dict kvs"










section \<open>Replacing a pipe (torchdata/dataloader2/graph/utils.py)\<close>

subsection \<open>_replace_dp and replace_dp\<close>




subsection \<open>The graph of a pipe in a heap\<close>


definition connected :: "heap \<Rightarrow> nat \<Rightarrow> nat list" where
  "connected h p = rev (remdups (rev (filter (\<lambda>r. r \<noteq> p) (refs_of_dict (h p)))))"

fun faithful :: "heap \<Rightarrow> nat \<Rightarrow> nat graph \<Rightarrow> bool"
  and faithful_items :: "heap \<Rightarrow> (nat \<times> nat \<times> nat graph) list \<Rightarrow> bool" where
  "faithful h p (Graph es) = (map fst es = connected h p \<and> faithful_items h es)"
| "faithful_items h [] = True"
| "faithful_items h ((dp_id, dp, sub) # es) =
     (dp_id = dp \<and> faithful h dp sub \<and> faithful_items h es)"

definition faithful_top :: "heap \<Rightarrow> nat \<Rightarrow> nat graph \<Rightarrow> bool" where
  "faithful_top h p g =
     (case items g of
        [(dp_id, dp, sub)] \<Rightarrow> dp_id = p \<and> dp = p \<and> faithful h p sub
      | _ \<Rightarrow> False)"



subsection \<open>The pipes a walk rewrites\<close>

text \<open>
  What the walk is compared with. \<open>rewrite_attrs\<close> is the effect of
  \<open>_assign_attr(recv_dp, old_dp, new_dp, inner_dp=True)\<close> on simple attributes:
  nothing when \<open>recv_dp\<close> is \<open>old_dp\<close> itself, and the first attribute that holds
  \<open>old_dp\<close> overwritten otherwise. \<open>receivers\<close> are the pipes the walk calls
  \<open>_assign_attr\<close> on, and \<open>rewritten\<close> is a heap in which the pipes of a set have
  been rewritten.
\<close>

definition rewrite_attrs ::
  "nat \<Rightarrow> nat \<Rightarrow> nat \<Rightarrow> (string \<times> pyval) list \<Rightarrow> (string \<times> pyval) list" where
  "rewrite_attrs old_dp new_dp r attrs =
     (if r = old_dp then attrs
      else zip (map fst attrs) (first_wins old_dp new_dp (map snd attrs)))"

fun receivers :: "nat \<Rightarrow> nat \<Rightarrow> nat graph \<Rightarrow> nat set"
  and receivers_items :: "nat \<Rightarrow> nat \<Rightarrow> (nat \<times> nat \<times> nat graph) list \<Rightarrow> nat set" where
  "receivers old_dp recv_dp (Graph es) = receivers_items old_dp recv_dp es"
| "receivers_items old_dp recv_dp [] = {}"
| "receivers_items old_dp recv_dp ((send_id, send_dp, sub) # es) =
     (if send_id = old_dp then {recv_dp} else receivers old_dp send_dp sub)
     \<union> receivers_items old_dp recv_dp es"

definition rewritten :: "nat \<Rightarrow> nat \<Rightarrow> nat set \<Rightarrow> heap \<Rightarrow> heap" where
  "rewritten old_dp new_dp X h = (\<lambda>r. if r \<in> X then rewrite_attrs old_dp new_dp r (h r) else h r)"





text \<open>
  Two pipelines. In the first, pipe 5 zips the pipes 2 and 3. In the second, pipe 5
  zips 2 and 3, which both read from the source 4; pipe 8 reads from 5 and pipe 9 from
  4, and neither is part of the pipeline of 5.
\<close>

definition zip_heap :: heap where
  "zip_heap = empty_heap(5 := [(''datapipes'', Tuple [Ref 2, Ref 3])])"

definition pipeline_heap :: heap where
  "pipeline_heap = empty_heap
     (5 := [(''datapipes'', Tuple [Ref 2, Ref 3])],
      2 := [(''source_datapipe'', Ref 4), (''fn'', Atom ''f'')],
      3 := [(''source_datapipe'', Ref 4)],
      8 := [(''source_datapipe'', Ref 5)],
      9 := [(''source_datapipe'', Ref 4)])"

section \<open>Properties of the stream combinators\<close>

subsection \<open>The buffer operations\<close>

lemma buffer_pop_split:
  "buffer_pop k b = Some (v, b') \<Longrightarrow>
     \<exists>pre post. b = pre @ (k, v) # post \<and> b' = pre @ post \<and> k \<notin> fst ` set pre"
proof (induction b arbitrary: v b')
  case Nil
  then show ?case by simp
next
  case (Cons e b)
  obtain k' w where e: "e = (k', w)" by (cases e)
  show ?case
  proof (cases "k = k'")
    case True
    with Cons.prems e have "v = w" "b' = b" by auto
    with True e show ?thesis by (intro exI [of _ "[]"] exI [of _ b]) simp
  next
    case False
    with Cons.prems e obtain b2 where p: "buffer_pop k b = Some (v, b2)" and b': "b' = (k', w) # b2"
      by (auto split: option.splits)
    from Cons.IH [OF p] obtain pre post where
      "b = pre @ (k, v) # post" "b2 = pre @ post" "k \<notin> fst ` set pre" by blast
    with False e b' show ?thesis
      by (intro exI [of _ "(k', w) # pre"] exI [of _ post]) auto
  qed
qed

lemma buffer_pop_Some:
  assumes "buffer_pop k b = Some (v, b')"
  shows "(k, v) \<in> set b \<and> set b' \<subseteq> set b \<and> length b = Suc (length b')"
proof -
  from buffer_pop_split [OF assms] obtain pre post where
    "b = pre @ (k, v) # post" "b' = pre @ post" by blast
  then show ?thesis by auto
qed

lemma buffer_pop_None: "buffer_pop k b = None \<Longrightarrow> \<not> in_buffer k b"
proof (induction b)
  case Nil
  then show ?case by (simp add: in_buffer_def)
next
  case (Cons e b)
  obtain k' w where e: "e = (k', w)" by (cases e)
  with Cons.prems have "k \<noteq> k'" "buffer_pop k b = None"
    by (auto split: if_splits option.splits)
  with Cons.IH e show ?case by (simp add: in_buffer_def)
qed

lemma evict_step_buffer:
  "evict_step bs s = (s1, e) \<Longrightarrow> set (buffer s1) \<subseteq> set (buffer s) \<and> ref_it s1 = ref_it s"
  by (auto simp: evict_step_def Let_def split: option.splits if_splits list.splits)

lemma keyed_subset: "keyed rkf A b \<Longrightarrow> set b' \<subseteq> set b \<Longrightarrow> keyed rkf A b'"
  by (auto simp: keyed_def list_all_iff)

lemma while_loop_found:
  "while_loop rkf bs key refs s = (s1, None) \<Longrightarrow> in_buffer key (buffer s1)"
  by (induction refs arbitrary: s) (auto simp: Let_def split: if_splits prod.splits option.splits)

lemma while_loop_keyed:
  "while_loop rkf bs key refs s = (s1, e) \<Longrightarrow> keyed rkf A (buffer s) \<Longrightarrow> set refs \<subseteq> A
    \<Longrightarrow> keyed rkf A (buffer s1) \<and> set (ref_it s1) \<subseteq> A"
proof (induction refs arbitrary: s)
  case Nil
  then show ?case by (auto split: if_splits)
next
  case (Cons r rest)
  show ?case
  proof (cases "in_buffer key (buffer s) \<or> in_buffer (rkf r) (buffer s)")
    case True
    with Cons.prems show ?thesis by (auto split: if_splits)
  next
    case False
    obtain s2 e2 where ev: "evict_step bs s = (s2, e2)" by (cases "evict_step bs s")
    have k2: "keyed rkf A (buffer s2)"
      using evict_step_buffer [OF ev] Cons.prems(2) keyed_subset by blast
    show ?thesis
    proof (cases e2)
      case (Some err)
      with ev False Cons.prems k2 show ?thesis by auto
    next
      case None
      let ?s3 = "s2\<lparr>buffer := buffer s2 @ [(rkf r, r)]\<rparr>"
      from ev None False Cons.prems have run: "while_loop rkf bs key rest ?s3 = (s1, e)"
        by simp
      note k2
      then have "keyed rkf A (buffer ?s3)"
        using Cons.prems(3) by (simp add: keyed_def)
      with Cons.IH [OF run] Cons.prems(3) show ?thesis by simp
    qed
  qed
qed

lemma loop_body_yield:
  assumes "loop_body z d s = Inr (y, s1)" "keyed (ref_key_fn z) A (buffer s)" "set (ref_it s) \<subseteq> A"
  shows "(\<exists>v\<in>A. ref_key_fn z v = key_fn z d \<and> y = make_result z (key_fn z d) d v)
         \<and> keyed (ref_key_fn z) A (buffer s1) \<and> set (ref_it s1) \<subseteq> A"
proof -
  obtain s2 e where w: "while_loop (ref_key_fn z) (buffer_size z) (key_fn z d) (ref_it s) s = (s2, e)"
    by (cases "while_loop (ref_key_fn z) (buffer_size z) (key_fn z d) (ref_it s) s")
  with assms(1) obtain v b where e: "e = None" and p: "buffer_pop (key_fn z d) (buffer s2) = Some (v, b)"
    and y: "y = make_result z (key_fn z d) d v" and s1: "s1 = s2\<lparr>buffer := b\<rparr>"
    by (auto simp: loop_body_def Let_def split: option.splits)
  from while_loop_keyed [OF w assms(2,3)] have k2: "keyed (ref_key_fn z) A (buffer s2)"
    and r2: "set (ref_it s2) \<subseteq> A" by auto
  from buffer_pop_Some [OF p] have "(key_fn z d, v) \<in> set (buffer s2)" "set b \<subseteq> set (buffer s2)"
    by auto
  with k2 have "v \<in> A" "key_fn z d = ref_key_fn z v" "keyed (ref_key_fn z) A b"
    by (auto simp: keyed_def list_all_iff)
  with y s1 r2 show ?thesis by auto
qed

lemma iter_loop_order:
  assumes "keyed (ref_key_fn z) A (buffer s)" "set (ref_it s) \<subseteq> A"
  shows "list_all2 (\<lambda>d y. \<exists>v\<in>A. ref_key_fn z v = key_fn z d \<and> y = make_result z (key_fn z d) d v)
           (take (length (yields (iter_loop z ds s))) ds) (yields (iter_loop z ds s))
       \<and> (case raised (iter_loop z ds s) of
            None \<Rightarrow> length (yields (iter_loop z ds s)) = length ds
          | Some e \<Rightarrow> length (yields (iter_loop z ds s)) < length ds)"
  using assms
proof (induction ds arbitrary: s)
  case Nil
  then show ?case by simp
next
  case (Cons d ds)
  show ?case
  proof (cases "loop_body z d s")
    case (Inl a)
    then show ?thesis by (cases a) simp
  next
    case (Inr b)
    obtain y s1 where b: "b = (y, s1)" by (cases b)
    from loop_body_yield [OF Inr [unfolded b] Cons.prems]
    have y: "\<exists>v\<in>A. ref_key_fn z v = key_fn z d \<and> y = make_result z (key_fn z d) d v"
      and inv: "keyed (ref_key_fn z) A (buffer s1)" "set (ref_it s1) \<subseteq> A" by auto
    from Cons.IH [OF inv] y Inr b show ?thesis
      by (simp add: Let_def split: option.splits)
  qed
qed

lemma zip_with_iter_example_run:
  "yields (IterKeyZipper_iter zip_with_iter_example)
     = [Plain (Merged 101), Plain (Merged 202), Plain (Merged 303)]
   \<and> raised (IterKeyZipper_iter zip_with_iter_example) = None"
  by (simp add: IterKeyZipper_iter_def zip_with_iter_example_def IterableWrapper_def
      iter_start_def loop_body_def in_buffer_def evict_step_def make_result_def
      finally_block_def Let_def)

subsection \<open>Order of the keyed join\<close>

text \<open>
  Claim C7. One pass of the keyed stream joiner yields its results in the order of the
  primary stream: the values yielded are, position by position, the merge of the items
  of a prefix of the primary stream with reference items of the same key; the prefix is
  the whole stream when the pass ends without an error and a proper prefix when it ends
  with one. For the primary stream [('a',100),('b',200),('c',300)], the secondary stream
  [('a',1),('b',2),('c',3),('d',4)], the first component as key and the sum of the second
  components as merge, the pass yields 101, 202, 303 and raises nothing.
\<close>

theorem IterKeyZipper_iter_primary_order:
  "list_all2
     (\<lambda>d y. \<exists>v\<in>set (dp_items (ref_datapipe z)).
               ref_key_fn z v = key_fn z d \<and> y = make_result z (key_fn z d) d v)
     (take (length (yields (IterKeyZipper_iter z))) (dp_items (source_datapipe z)))
     (yields (IterKeyZipper_iter z))
   \<and> (case raised (IterKeyZipper_iter z) of
        None \<Rightarrow> length (yields (IterKeyZipper_iter z)) = length (dp_items (source_datapipe z))
      | Some e \<Rightarrow> length (yields (IterKeyZipper_iter z)) < length (dp_items (source_datapipe z)))
   \<and> yields (IterKeyZipper_iter zip_with_iter_example)
       = [Plain (Merged 101), Plain (Merged 202), Plain (Merged 303)]
   \<and> raised (IterKeyZipper_iter zip_with_iter_example) = None"
proof -
  have "keyed (ref_key_fn z) (set (dp_items (ref_datapipe z))) (buffer (iter_start z))"
    and "set (ref_it (iter_start z)) \<subseteq> set (dp_items (ref_datapipe z))"
    by (simp_all add: keyed_def iter_start_def)
  from iter_loop_order [OF this] zip_with_iter_example_run show ?thesis
    unfolding IterKeyZipper_iter_def by blast
qed

subsection \<open>Lengths of the round-robin branches\<close>

lemma count_mod_upt:
  "i < N \<Longrightarrow> length (filter (\<lambda>k. k mod N = i) [0..<n]) = n div N + (if i < n mod N then 1 else 0)"
proof (induction n)
  case 0
  then show ?case by simp
next
  case (Suc n)
  show ?case
  proof (cases "Suc (n mod N) = N")
    case True
    with Suc show ?thesis by (auto simp: div_Suc mod_Suc)
  next
    case False
    with Suc show ?thesis by (auto simp: div_Suc mod_Suc)
  qed
qed

lemma filter_zip_fst:
  "length as = length xs \<Longrightarrow> length (filter (\<lambda>p. P (fst p)) (zip as xs)) = length (filter P as)"
  by (induction as xs rule: list_induct2) auto

lemma filter_map_int:
  "length (filter (\<lambda>k. k mod int M = int i) (map int ks)) = length (filter (\<lambda>k. k mod M = i) ks)"
proof -
  have "\<And>a. (int a mod int M = int i) = (a mod M = i)"
    by (metis of_nat_eq_iff zmod_int)
  then show ?thesis by (induction ks) auto
qed

lemma branch_length:
  assumes "0 < N" "i < nat N"
  shows "int (length (map drop_index (demux_branch (round_robin_fn N) (int i) (enumerate_dp xs))))
       = int (length xs) div N + (if int i < int (length xs) mod N then 1 else 0)"
proof -
  obtain M where N: "N = int M" and M: "i < M"
    using assms by (metis nat_0_le less_imp_le)
  have "length (demux_branch (round_robin_fn N) (int i) (enumerate_dp xs))
        = length (filter (\<lambda>k. k mod N = int i) (map int [0..<length xs]))"
    unfolding demux_branch_def round_robin_fn_def enumerate_dp_def
    using filter_zip_fst [of "map int [0..<length xs]" xs "\<lambda>k. k mod N = int i"] by simp
  also have "\<dots> = length (filter (\<lambda>k. k mod M = i) [0..<length xs])"
    unfolding N by (rule filter_map_int)
  also have "\<dots> = length xs div M + (if i < length xs mod M then 1 else 0)"
    using M by (rule count_mod_upt)
  finally have "length (demux_branch (round_robin_fn N) (int i) (enumerate_dp xs))
     = length xs div M + (if i < length xs mod M then 1 else 0)" .
  then show ?thesis unfolding N
    by (simp add: zdiv_int flip: zmod_int)
qed

lemma get_length_formula:
  "N \<noteq> 0 \<Longrightarrow> get_length_by_instance n N i = Inr (n div N + (if i < n mod N then 1 else 0))"
  by (auto simp: get_length_by_instance_def Let_def minus_div_mult_eq_mod)

lemma round_robin_range5:
  "round_robin_demux [0, 1, 2, 3, 4 :: int] 2 = Inr [[0, 2, 4], [1, 3]]"
  by code_simp

text \<open>
  Claim C8. The length the round-robin splitter reports for a branch is computed from
  the length n of the source and the number N of branches alone: floor(n/N), plus one
  when the branch index is strictly less than n mod N. With at least two branches this is
  the number of items the branch receives. For N = 2 over range(5), branch 0 yields
  [0, 2, 4] and reports 3, branch 1 yields [1, 3] and reports 2.
\<close>

theorem get_length_by_instance_analytic:
  "(num_instances \<noteq> 0 \<longrightarrow>
      get_length_by_instance n num_instances instance_id
        = Inr (n div num_instances + (if instance_id < n mod num_instances then 1 else 0)))
   \<and> (1 < num_instances \<and> i < nat num_instances \<longrightarrow>
        (\<exists>branches. round_robin_demux xs num_instances = Inr branches
           \<and> length branches = nat num_instances
           \<and> get_length_by_instance (int (length xs)) num_instances (int i)
               = Inr (int (length (branches ! i)))))
   \<and> round_robin_demux [0, 1, 2, 3, 4 :: int] 2 = Inr [[0, 2, 4], [1, 3]]
   \<and> get_length_by_instance 5 2 0 = Inr 3
   \<and> get_length_by_instance 5 2 1 = Inr 2"
proof (intro conjI impI)
  assume "num_instances \<noteq> 0"
  then show "get_length_by_instance n num_instances instance_id
        = Inr (n div num_instances + (if instance_id < n mod num_instances then 1 else 0))"
    by (rule get_length_formula)
next
  assume a: "1 < num_instances \<and> i < nat num_instances"
  let ?bs = "map (\<lambda>i. map drop_index
                 (demux_branch (round_robin_fn num_instances) (int i) (enumerate_dp xs)))
               [0..<nat num_instances]"
  have r: "round_robin_demux xs num_instances = Inr ?bs"
    using a by (simp add: round_robin_demux_def)
  have "int (length (?bs ! i))
      = int (length xs) div num_instances + (if int i < int (length xs) mod num_instances then 1 else 0)"
    using a branch_length [of num_instances i xs] by simp
  moreover have "get_length_by_instance (int (length xs)) num_instances (int i)
      = Inr (int (length xs) div num_instances
             + (if int i < int (length xs) mod num_instances then 1 else 0))"
    using a by (intro get_length_formula) simp
  ultimately have "get_length_by_instance (int (length xs)) num_instances (int i)
      = Inr (int (length (?bs ! i)))" by simp
  with r show "\<exists>branches. round_robin_demux xs num_instances = Inr branches
           \<and> length branches = nat num_instances
           \<and> get_length_by_instance (int (length xs)) num_instances (int i)
               = Inr (int (length (branches ! i)))"
    by (intro exI [of _ ?bs]) simp
next
  show "round_robin_demux [0, 1, 2, 3, 4 :: int] 2 = Inr [[0, 2, 4], [1, 3]]"
    by (rule round_robin_range5)
next
  show "get_length_by_instance 5 2 0 = Inr 3"
    by (simp add: get_length_by_instance_def)
next
  show "get_length_by_instance 5 2 1 = Inr 2"
    by (simp add: get_length_by_instance_def)
qed

theorem get_length_by_instance_analytic_witness:
  "get_length_by_instance 7 3 0 = Inr 3
   \<and> get_length_by_instance 7 3 1 = Inr 2
   \<and> (\<exists>branches. round_robin_demux [10, 20, 30 :: int] 2 = Inr branches
        \<and> length branches = 2
        \<and> get_length_by_instance 3 2 1 = Inr (int (length (branches ! 1))))"
proof -
  have h: "(3::int) \<noteq> 0" and g: "(1::int) < 2 \<and> (1::nat) < nat 2" by simp_all
  note t0 = get_length_by_instance_analytic
    [where num_instances = 3 and n = 7 and instance_id = 0 and i = 0 and xs = "[] :: int list"]
  note t1 = get_length_by_instance_analytic
    [where num_instances = 3 and n = 7 and instance_id = 1 and i = 0 and xs = "[] :: int list"]
  note t2 = get_length_by_instance_analytic
    [where num_instances = 2 and n = 0 and instance_id = 0 and i = 1 and xs = "[10, 20, 30 :: int]"]
  from t0 h have a: "get_length_by_instance 7 3 0 = Inr 3" by simp
  from t1 h have b: "get_length_by_instance 7 3 1 = Inr 2" by simp
  from t2 g have "\<exists>branches. round_robin_demux [10, 20, 30 :: int] 2 = Inr branches
        \<and> length branches = nat 2
        \<and> get_length_by_instance (int (length [10, 20, 30 :: int])) 2 (int 1)
            = Inr (int (length (branches ! 1)))" by blast
  then have c: "\<exists>branches. round_robin_demux [10, 20, 30 :: int] 2 = Inr branches
        \<and> length branches = 2
        \<and> get_length_by_instance 3 2 1 = Inr (int (length (branches ! 1)))" by simp
  from a b c show ?thesis by blast
qed

subsection \<open>The lookup join\<close>

lemma map_iter_loop_char:
  "map_iter_loop z xs =
     (map (\<lambda>item. map_make_result z (mkey_fn z item) item (the (map_datapipe z (mkey_fn z item))))
        (takeWhile (\<lambda>item. map_datapipe z (mkey_fn z item) \<noteq> None) xs),
      if list_all (\<lambda>item. map_datapipe z (mkey_fn z item) \<noteq> None) xs then None
      else Some KeyError)"
  by (induction xs) (auto simp: Let_def split: option.splits)

text \<open>
  Claim C9. The lookup stream joiner looks the key of every item of the primary stream
  up in the random-access source, once and in order, and yields the merge of the item
  with what it found; at the first item whose key the source does not hold, the pass
  ends with a lookup error (KeyError): nothing is yielded for that item or after it.
  For the primary stream [('a',1),('b',2),('c',3)] against the map
  {'a':100,'b':200,'c':300,'d':400} with merge = (key, sum of values) the pass yields
  [('a',101),('b',202),('c',303)]; with 'e' in place of 'b' it yields ('a',101) and
  raises.
\<close>

theorem MapKeyZipper_iter_lookup:
  "MapKeyZipper_iter z =
     (map (\<lambda>item. map_make_result z (mkey_fn z item) item (the (map_datapipe z (mkey_fn z item))))
        (takeWhile (\<lambda>item. map_datapipe z (mkey_fn z item) \<noteq> None)
           (dp_items (source_iterdatapipe z))),
      if list_all (\<lambda>item. map_datapipe z (mkey_fn z item) \<noteq> None)
           (dp_items (source_iterdatapipe z))
      then None else Some KeyError)
   \<and> MapKeyZipper_iter zip_with_map_example
       = ([Plain (Merged (''a'', 101)), Plain (Merged (''b'', 202)), Plain (Merged (''c'', 303))],
          None)
   \<and> MapKeyZipper_iter
        (zip_with_map_example
           \<lparr>source_iterdatapipe := IterableWrapper [(''a'', 1), (''e'', 2), (''c'', 3)]\<rparr>)
       = ([Plain (Merged (''a'', 101))], Some KeyError)"
proof (intro conjI)
  show "MapKeyZipper_iter z =
     (map (\<lambda>item. map_make_result z (mkey_fn z item) item (the (map_datapipe z (mkey_fn z item))))
        (takeWhile (\<lambda>item. map_datapipe z (mkey_fn z item) \<noteq> None)
           (dp_items (source_iterdatapipe z))),
      if list_all (\<lambda>item. map_datapipe z (mkey_fn z item) \<noteq> None)
           (dp_items (source_iterdatapipe z))
      then None else Some KeyError)"
    unfolding MapKeyZipper_iter_def by (rule map_iter_loop_char)
next
  show "MapKeyZipper_iter zip_with_map_example
       = ([Plain (Merged (''a'', 101)), Plain (Merged (''b'', 202)), Plain (Merged (''c'', 303))],
          None)"
    by (simp add: MapKeyZipper_iter_def zip_with_map_example_def IterableWrapper_def
        map_make_result_def Let_def)
next
  show "MapKeyZipper_iter
        (zip_with_map_example
           \<lparr>source_iterdatapipe := IterableWrapper [(''a'', 1), (''e'', 2), (''c'', 3)]\<rparr>)
       = ([Plain (Merged (''a'', 101))], Some KeyError)"
    by (simp add: MapKeyZipper_iter_def zip_with_map_example_def IterableWrapper_def
        map_make_result_def Let_def)
qed

subsection \<open>Reported lengths of the joiners\<close>

text \<open>
  Claim C10. The length the keyed stream joiner and the lookup stream joiner report is
  what the primary stream reports, whatever the reference pipe or the map holds; this
  is so also when the pass fails before it yields that many items: over a primary
  stream of three items, with an empty reference pipe (or an empty map), both report 3
  while the pass yields nothing and raises.
\<close>

theorem joiner_len_is_primary_len:
  "IterKeyZipper_len z = len_dp (source_datapipe z)
   \<and> IterKeyZipper_len (z\<lparr>ref_datapipe := r\<rparr>) = IterKeyZipper_len z
   \<and> MapKeyZipper_len m = len_dp (source_iterdatapipe m)
   \<and> MapKeyZipper_len (m\<lparr>map_datapipe := f\<rparr>) = MapKeyZipper_len m
   \<and> IterKeyZipper_len (zip_with_iter_example\<lparr>ref_datapipe := IterableWrapper []\<rparr>) = Inr 3
   \<and> yields (IterKeyZipper_iter (zip_with_iter_example\<lparr>ref_datapipe := IterableWrapper []\<rparr>)) = []
   \<and> raised (IterKeyZipper_iter (zip_with_iter_example\<lparr>ref_datapipe := IterableWrapper []\<rparr>))
       = Some BufferError
   \<and> MapKeyZipper_len (zip_with_map_example\<lparr>map_datapipe := Map.empty\<rparr>) = Inr 3
   \<and> MapKeyZipper_iter (zip_with_map_example\<lparr>map_datapipe := Map.empty\<rparr>) = ([], Some KeyError)"
  by (simp add: IterKeyZipper_len_def MapKeyZipper_len_def len_dp_def
      zip_with_iter_example_def zip_with_map_example_def IterableWrapper_def
      IterKeyZipper_iter_def MapKeyZipper_iter_def iter_start_def loop_body_def
      in_buffer_def finally_block_def Let_def)

subsection \<open>The inner loop, case by case\<close>

lemma evict_step_cases:
  assumes "evict_step bs s = (s1, e)"
  shows "(s1 = s \<and> e = None \<and> (\<forall>n. bs = Some n \<longrightarrow> int (length (buffer s)) \<le> n))
       \<or> (\<exists>n x. bs = Some n \<and> int (length (buffer s)) > n \<and> e = None
            \<and> buffer s = x # buffer s1 \<and> evicted s1 = evicted s @ [x])
       \<or> (\<exists>n. bs = Some n \<and> int (length (buffer s)) > n \<and> e = Some KeyError
            \<and> buffer s = [] \<and> buffer s1 = [] \<and> evicted s1 = evicted s)"
  using assms
  by (auto simp: evict_step_def Let_def split: option.splits if_splits list.splits)

lemma evict_step_frame:
  assumes "evict_step bs s = (s1, e)"
  shows "janitored s1 = janitored s \<and> ref_it s1 = ref_it s
       \<and> warned s1 + (if warn_once_flag s1 then 1 else 0)
           \<le> warned s + (if warn_once_flag s then 1 else 0)"
  using assms
  by (auto simp: evict_step_def Let_def split: option.splits if_splits list.splits)

lemma evict_step_mset:
  assumes "evict_step bs s = (s1, e)"
  shows "mset (map snd (buffer s1)) + mset (map snd (evicted s1))
           = mset (map snd (buffer s)) + mset (map snd (evicted s))"
  using evict_step_cases [OF assms] by auto

lemma evict_step_error: "evict_step bs s = (s1, Some e) \<Longrightarrow> e = KeyError"
  using evict_step_cases [of bs s s1 "Some e"] by auto

lemma while_loop_cases [consumes 1, case_names exhausted found duplicate evict_error step]:
  assumes run: "while_loop rkf bs key refs s = (s1, e)"
    and exhausted: "\<And>s. \<not> in_buffer key (buffer s) \<Longrightarrow> P [] s (s\<lparr>ref_it := []\<rparr>) (Some BufferError)"
    and found: "\<And>refs s. in_buffer key (buffer s) \<Longrightarrow> P refs s (s\<lparr>ref_it := refs\<rparr>) None"
    and duplicate: "\<And>r rest s. \<not> in_buffer key (buffer s) \<Longrightarrow> in_buffer (rkf r) (buffer s)
        \<Longrightarrow> P (r # rest) s (s\<lparr>ref_it := rest\<rparr>) (Some ValueError)"
    and evict_error: "\<And>r rest s s2 err. \<not> in_buffer key (buffer s) \<Longrightarrow> \<not> in_buffer (rkf r) (buffer s)
        \<Longrightarrow> evict_step bs s = (s2, Some err) \<Longrightarrow> P (r # rest) s (s2\<lparr>ref_it := rest\<rparr>) (Some err)"
    and step: "\<And>r rest s s2 s1 e. \<not> in_buffer key (buffer s) \<Longrightarrow> \<not> in_buffer (rkf r) (buffer s)
        \<Longrightarrow> evict_step bs s = (s2, None)
        \<Longrightarrow> while_loop rkf bs key rest (s2\<lparr>buffer := buffer s2 @ [(rkf r, r)]\<rparr>) = (s1, e)
        \<Longrightarrow> P rest (s2\<lparr>buffer := buffer s2 @ [(rkf r, r)]\<rparr>) s1 e
        \<Longrightarrow> P (r # rest) s s1 e"
  shows "P refs s s1 e"
  using run
proof (induction refs arbitrary: s)
  case Nil
  then show ?case using exhausted found by (auto split: if_splits)
next
  case (Cons r rest)
  show ?case
  proof (cases "in_buffer key (buffer s)")
    case True
    with Cons.prems found show ?thesis by auto
  next
    case nk: False
    show ?thesis
    proof (cases "in_buffer (rkf r) (buffer s)")
      case True
      with nk Cons.prems duplicate show ?thesis by auto
    next
      case nd: False
      obtain s2 e2 where ev: "evict_step bs s = (s2, e2)" by (cases "evict_step bs s")
      show ?thesis
      proof (cases e2)
        case (Some err)
        with ev nk nd Cons.prems evict_error [OF nk nd] show ?thesis by auto
      next
        case None
        with ev nk nd Cons.prems
        have w: "while_loop rkf bs key rest (s2\<lparr>buffer := buffer s2 @ [(rkf r, r)]\<rparr>) = (s1, e)"
          by simp
        from step [OF nk nd ev [unfolded None] w Cons.IH [OF w]] show ?thesis .
      qed
    qed
  qed
qed

lemma while_loop_conserve:
  "while_loop rkf bs key refs s = (s1, e) \<Longrightarrow>
     \<exists>pulled dropped. refs = pulled @ dropped @ ref_it s1
       \<and> mset (map snd (buffer s1)) + mset (map snd (evicted s1))
           = mset (map snd (buffer s)) + mset (map snd (evicted s)) + mset pulled
       \<and> janitored s1 = janitored s
       \<and> (dropped = [] \<or> (length dropped = 1 \<and> (e = Some ValueError \<or> e = Some KeyError)))"
proof (induction rule: while_loop_cases)
  case (exhausted s)
  show ?case by (intro exI [of _ "[]"]) simp
next
  case (found refs s)
  show ?case by (intro exI [of _ "[]"]) simp
next
  case (duplicate r rest s)
  show ?case by (intro exI [of _ "[]"] exI [of _ "[r]"]) simp
next
  case (evict_error r rest s s2 err)
  from evict_step_error [OF evict_error(3)] evict_step_mset [OF evict_error(3)]
    evict_step_frame [OF evict_error(3)]
  show ?case by (intro exI [of _ "[]"] exI [of _ "[r]"]) simp
next
  case (step r rest s s2 s1 e)
  let ?s3 = "s2\<lparr>buffer := buffer s2 @ [(rkf r, r)]\<rparr>"
  from step(5) obtain pulled dropped where
    1: "rest = pulled @ dropped @ ref_it s1"
    and 2: "mset (map snd (buffer s1)) + mset (map snd (evicted s1))
           = mset (map snd (buffer ?s3)) + mset (map snd (evicted ?s3)) + mset pulled"
    and 3: "janitored s1 = janitored ?s3"
    and 4: "dropped = [] \<or> (length dropped = 1 \<and> (e = Some ValueError \<or> e = Some KeyError))"
    by blast
  from evict_step_mset [OF step(3)] evict_step_frame [OF step(3)] 2 3
  have "mset (map snd (buffer s1)) + mset (map snd (evicted s1))
         = mset (map snd (buffer s)) + mset (map snd (evicted s)) + mset (r # pulled)"
    and "janitored s1 = janitored s"
    by (simp_all add: ac_simps)
  with 1 4 show ?case
    by (intro exI [of _ "r # pulled"] exI [of _ dropped]) simp
qed


lemma while_loop_len:
  "while_loop rkf (Some n) key refs s = (s1, e) \<Longrightarrow> int (length (buffer s)) \<le> n + 1
     \<Longrightarrow> 0 \<le> n \<Longrightarrow> int (length (buffer s1)) \<le> n + 1"
proof (induction rule: while_loop_cases)
  case (evict_error r rest s s2 err)
  with evict_step_cases [OF evict_error(3)] show ?case by auto
next
  case (step r rest s s2 s1 e)
  from evict_step_cases [OF step(3)] step(6)
  have "int (length (buffer (s2\<lparr>buffer := buffer s2 @ [(rkf r, r)]\<rparr>))) \<le> n + 1" by auto
  with step show ?case by simp
qed simp_all

lemma while_loop_warned:
  "while_loop rkf bs key refs s = (s1, e) \<Longrightarrow>
     warned s1 + (if warn_once_flag s1 then 1 else 0)
       \<le> warned s + (if warn_once_flag s then 1 else 0)"
proof (induction rule: while_loop_cases)
  case (evict_error r rest s s2 err)
  with evict_step_frame [OF evict_error(3)] show ?case by simp
next
  case (step r rest s s2 s1 e)
  with evict_step_frame [OF step(3)] show ?case by simp
qed simp_all

lemma subseq_append_right: "subseq xs ys \<Longrightarrow> subseq xs (ys @ zs)"
  by (metis append_Nil2 list_emb_Nil list_emb_append_mono)

lemma while_loop_fifo:
  "while_loop rkf bs key refs s = (s1, e) \<Longrightarrow>
     subseq (map snd (evicted s) @ map snd (buffer s)) C \<Longrightarrow>
     subseq (map snd (evicted s1) @ map snd (buffer s1)) (C @ refs)"
proof (induction arbitrary: C rule: while_loop_cases)
  case (exhausted s)
  then show ?case by simp
next
  case (found refs s)
  then show ?case by (simp add: subseq_append_right)
next
  case (duplicate r rest s)
  then show ?case by (simp add: subseq_append_right)
next
  case (evict_error r rest s s2 err)
  from evict_step_cases [OF evict_error(3)] evict_error(4) show ?case
    by (auto simp: subseq_append_right)
next
  case (step r rest s s2 s1 e)
  from evict_step_cases [OF step(3)]
  have "map snd (evicted s2) @ map snd (buffer s2) = map snd (evicted s) @ map snd (buffer s)"
    by auto
  with step(6) have "subseq (map snd (evicted s2) @ map snd (buffer s2)) C" by simp
  then have "subseq ((map snd (evicted s2) @ map snd (buffer s2)) @ [r]) (C @ [r])"
    by (rule list_emb_append_mono) simp
  then have "subseq (map snd (evicted (s2\<lparr>buffer := buffer s2 @ [(rkf r, r)]\<rparr>))
                @ map snd (buffer (s2\<lparr>buffer := buffer s2 @ [(rkf r, r)]\<rparr>))) (C @ [r])"
    by simp
  from step(5) [OF this] show ?case by simp
qed

lemma loop_body_Inr_conserve:
  assumes "loop_body z d s = Inr (y, s1)"
  shows "\<exists>pulled v. ref_it s = pulled @ ref_it s1
       \<and> y = make_result z (key_fn z d) d v
       \<and> mset (map snd (buffer s1)) + mset (map snd (evicted s1)) + {#v#}
           = mset (map snd (buffer s)) + mset (map snd (evicted s)) + mset pulled
       \<and> janitored s1 = janitored s"
proof -
  obtain s2 e where w: "while_loop (ref_key_fn z) (buffer_size z) (key_fn z d) (ref_it s) s = (s2, e)"
    by (cases "while_loop (ref_key_fn z) (buffer_size z) (key_fn z d) (ref_it s) s")
  with assms obtain v b where e: "e = None" and p: "buffer_pop (key_fn z d) (buffer s2) = Some (v, b)"
    and y: "y = make_result z (key_fn z d) d v" and s1: "s1 = s2\<lparr>buffer := b\<rparr>"
    by (auto simp: loop_body_def Let_def split: option.splits)
  from while_loop_conserve [OF w] e obtain pulled where
    1: "ref_it s = pulled @ ref_it s2"
    and 2: "mset (map snd (buffer s2)) + mset (map snd (evicted s2))
           = mset (map snd (buffer s)) + mset (map snd (evicted s)) + mset pulled"
    and 3: "janitored s2 = janitored s"
    by auto
  from buffer_pop_split [OF p] obtain pre post where
    "buffer s2 = pre @ (key_fn z d, v) # post" "b = pre @ post" by blast
  then have "mset (map snd (buffer s2)) = mset (map snd b) + {#v#}" by simp
  with 1 2 3 y s1 show ?thesis
    by (intro exI [of _ pulled] exI [of _ v]) (simp add: ac_simps)
qed

lemma loop_body_Inl_conserve:
  assumes "loop_body z d s = Inl (e, s1)"
  shows "\<exists>pulled dropped. ref_it s = pulled @ dropped @ ref_it s1
       \<and> mset (map snd (buffer s1)) + mset (map snd (evicted s1))
           = mset (map snd (buffer s)) + mset (map snd (evicted s)) + mset pulled
       \<and> janitored s1 = janitored s
       \<and> (dropped = [] \<or> (length dropped = 1 \<and> (e = ValueError \<or> e = KeyError)))"
proof -
  obtain s2 e2 where w: "while_loop (ref_key_fn z) (buffer_size z) (key_fn z d) (ref_it s) s = (s2, e2)"
    by (cases "while_loop (ref_key_fn z) (buffer_size z) (key_fn z d) (ref_it s) s")
  have "e2 = Some e \<and> s1 = s2"
  proof (cases e2)
    case None
    with w have "in_buffer (key_fn z d) (buffer s2)" by (simp add: while_loop_found)
    with buffer_pop_None [of "key_fn z d" "buffer s2"]
    have "buffer_pop (key_fn z d) (buffer s2) \<noteq> None" by (rule_tac notI) simp
    with assms w None show ?thesis
      by (auto simp: loop_body_def Let_def split: option.splits)
  next
    case (Some a)
    with assms w show ?thesis by (simp add: loop_body_def Let_def)
  qed
  with while_loop_conserve [OF w] show ?thesis by auto
qed






lemma loop_body_duplicate:
  assumes "\<not> in_buffer (key_fn z d) (buffer s)" "ref_it s = r # rest"
    "in_buffer (ref_key_fn z r) (buffer s)"
  shows "loop_body z d s = Inl (ValueError, s\<lparr>ref_it := rest\<rparr>)"
  using assms by (simp add: loop_body_def Let_def)









subsection \<open>Failures and cleanup of the keyed join\<close>




subsection \<open>Bound, eviction order and warning of the join buffer\<close>

lemma key_inv_ref_it [simp]: "key_inv rkf refs (s\<lparr>ref_it := x\<rparr>) M = key_inv rkf refs s M"
  by (simp add: key_inv_def)

lemma key_inv_evict:
  assumes "evict_step bs s = (s2, None)" "key_inv rkf (r # rest) s M"
  shows "key_inv rkf rest (s2\<lparr>buffer := buffer s2 @ [(rkf r, r)]\<rparr>) M"
  using evict_step_cases [OF assms(1)]
proof (elim disjE exE conjE)
  assume "s2 = s"
  with assms(2) show ?thesis by (auto simp: key_inv_def)
next
  fix n x
  assume "buffer s = x # buffer s2" "evicted s2 = evicted s @ [x]"
  with assms(2) show ?thesis by (auto simp: key_inv_def)
qed simp

lemma while_loop_key_inv:
  "while_loop rkf bs key refs s = (s1, e) \<Longrightarrow> key_inv rkf refs s M
     \<Longrightarrow> (\<And>n. bs = Some n \<Longrightarrow> 0 \<le> n)
     \<Longrightarrow> key_inv rkf (ref_it s1) s1 M \<and> (e = None \<or> e = Some BufferError)"
proof (induction rule: while_loop_cases)
  case (exhausted s)
  then show ?case by simp
next
  case (found refs s)
  then show ?case by simp
next
  case (duplicate r rest s)
  then show ?case by (auto simp: key_inv_def in_buffer_def)
next
  case (evict_error r rest s s2 err)
  from evict_step_cases [OF evict_error(3)] evict_error(5) show ?case by force
next
  case (step r rest s s2 s1 e)
  from key_inv_evict [OF step(3) step(6)] step(5) step(7) show ?case by blast
qed

lemma key_inv_pop:
  assumes "key_inv rkf refs s M" "buffer_pop k (buffer s) = Some (v, b)"
  shows "key_inv rkf refs (s\<lparr>buffer := b\<rparr>) (insert k M)"
proof -
  from buffer_pop_split [OF assms(2)] obtain pre post where
    "buffer s = pre @ (k, v) # post" "b = pre @ post" by blast
  with assms(1) show ?thesis by (auto simp: key_inv_def)
qed

lemma loop_body_key_inv:
  assumes inv: "key_inv (ref_key_fn z) (ref_it s) s M"
    and bs: "\<And>n. buffer_size z = Some n \<Longrightarrow> 0 \<le> n"
  shows "case loop_body z d s of
           Inl (e, s1) \<Rightarrow> e = BufferError \<and> key_inv (ref_key_fn z) (ref_it s1) s1 M
         | Inr (y, s1) \<Rightarrow> key_inv (ref_key_fn z) (ref_it s1) s1 (insert (key_fn z d) M)"
proof -
  obtain s2 e2 where w: "while_loop (ref_key_fn z) (buffer_size z) (key_fn z d) (ref_it s) s = (s2, e2)"
    by (cases "while_loop (ref_key_fn z) (buffer_size z) (key_fn z d) (ref_it s) s")
  from while_loop_key_inv [OF w inv bs]
  have i2: "key_inv (ref_key_fn z) (ref_it s2) s2 M" and e2: "e2 = None \<or> e2 = Some BufferError"
    by auto
  show ?thesis
  proof (cases e2)
    case (Some a)
    with w e2 i2 show ?thesis by (simp add: loop_body_def Let_def)
  next
    case None
    from w None have "in_buffer (key_fn z d) (buffer s2)" by (simp add: while_loop_found)
    with buffer_pop_None [of "key_fn z d" "buffer s2"]
    obtain v b where p: "buffer_pop (key_fn z d) (buffer s2) = Some (v, b)"
      by (cases "buffer_pop (key_fn z d) (buffer s2)") auto
    from key_inv_pop [OF i2 p] w None p show ?thesis
      by (simp add: loop_body_def Let_def)
  qed
qed

lemma iter_loop_evicted_no_match:
  assumes bs: "\<And>n. buffer_size z = Some n \<Longrightarrow> 0 \<le> n"
  shows "key_inv (ref_key_fn z) (ref_it s) s M \<Longrightarrow>
     fst ` set (evicted (final (iter_loop z ds s))) \<inter> M = {}
     \<and> (\<forall>i<length ds. key_fn z (ds ! i) \<in> fst ` set (evicted (final (iter_loop z ds s)))
           \<longrightarrow> raised (iter_loop z ds s) = Some BufferError
               \<and> length (yields (iter_loop z ds s)) \<le> i)"
proof (induction ds arbitrary: s M)
  case Nil
  then show ?case by (simp add: finally_block_def key_inv_def)
next
  case (Cons d ds)
  note lb = loop_body_key_inv [OF Cons.prems bs, of d]
  show ?case
  proof (cases "loop_body z d s")
    case (Inl a)
    obtain e s1 where a: "a = (e, s1)" by (cases a)
    with lb Inl have "e = BufferError" "key_inv (ref_key_fn z) (ref_it s1) s1 M" by simp_all
    with Inl a show ?thesis by (simp add: finally_block_def key_inv_def)
  next
    case (Inr b)
    obtain y s1 where b: "b = (y, s1)" by (cases b)
    with lb Inr have "key_inv (ref_key_fn z) (ref_it s1) s1 (insert (key_fn z d) M)" by simp
    from Cons.IH [OF this]
    have 1: "fst ` set (evicted (final (iter_loop z ds s1))) \<inter> insert (key_fn z d) M = {}"
      and 2: "\<forall>i<length ds. key_fn z (ds ! i) \<in> fst ` set (evicted (final (iter_loop z ds s1)))
           \<longrightarrow> raised (iter_loop z ds s1) = Some BufferError
               \<and> length (yields (iter_loop z ds s1)) \<le> i"
      by auto
    have r: "iter_loop z (d # ds) s
        = (iter_loop z ds s1)\<lparr>yields := y # yields (iter_loop z ds s1)\<rparr>"
      using Inr b by (simp add: Let_def)
    show ?thesis unfolding r
    proof (intro conjI allI impI)
      show "fst ` set (evicted (final ((iter_loop z ds s1)\<lparr>yields := y # yields (iter_loop z ds s1)\<rparr>)))
             \<inter> M = {}" using 1 by auto
    next
      fix i
      assume i: "i < length (d # ds)"
        and k: "key_fn z ((d # ds) ! i)
           \<in> fst ` set (evicted (final ((iter_loop z ds s1)\<lparr>yields := y # yields (iter_loop z ds s1)\<rparr>)))"
      show "raised ((iter_loop z ds s1)\<lparr>yields := y # yields (iter_loop z ds s1)\<rparr>) = Some BufferError"
        using i k 1 2 by (cases i) auto
      show "length (yields ((iter_loop z ds s1)\<lparr>yields := y # yields (iter_loop z ds s1)\<rparr>)) \<le> i"
        using i k 1 2 by (cases i) auto
    qed
  qed
qed

lemma iter_loop_exit [consumes 1, case_names error yield]:
  assumes "I s"
    and "\<And>d s e s1. I s \<Longrightarrow> loop_body z d s = Inl (e, s1) \<Longrightarrow> Q s1"
    and "\<And>d s y s1. I s \<Longrightarrow> loop_body z d s = Inr (y, s1) \<Longrightarrow> I s1 \<and> Q s1"
    and "Q s"
  shows "\<exists>sx. final (iter_loop z ds s) = finally_block sx \<and> Q sx"
  using assms(1,4)
proof (induction ds arbitrary: s)
  case Nil
  then show ?case by auto
next
  case (Cons d ds)
  show ?case
  proof (cases "loop_body z d s")
    case (Inl a)
    obtain e s1 where a: "a = (e, s1)" by (cases a)
    from assms(2) [OF Cons.prems(1) Inl [unfolded a]] Inl a show ?thesis by auto
  next
    case (Inr b)
    obtain y s1 where b: "b = (y, s1)" by (cases b)
    from assms(3) [OF Cons.prems(1) Inr [unfolded b]] have "I s1" "Q s1" by auto
    from Cons.IH [OF this] Inr b show ?thesis by (simp add: Let_def)
  qed
qed

lemma loop_body_frame:
  "loop_body z d s = Inl (e, s1) \<Longrightarrow> janitored s1 = janitored s"
  "loop_body z d s = Inr (y, s2) \<Longrightarrow> janitored s2 = janitored s"
  using loop_body_Inl_conserve [of z d s e s1] loop_body_Inr_conserve [of z d s y s2]
  by auto

lemma loop_body_len:
  assumes "buffer_size z = Some n" "0 \<le> n" "int (length (buffer s)) \<le> n"
  shows "case loop_body z d s of
           Inl (e, s1) \<Rightarrow> int (length (buffer s1)) \<le> n + 1
         | Inr (y, s1) \<Rightarrow> int (length (buffer s1)) \<le> n"
proof -
  obtain s2 e2 where w: "while_loop (ref_key_fn z) (Some n) (key_fn z d) (ref_it s) s = (s2, e2)"
    by (cases "while_loop (ref_key_fn z) (Some n) (key_fn z d) (ref_it s) s")
  from while_loop_len [OF w] assms have l: "int (length (buffer s2)) \<le> n + 1" by simp
  show ?thesis
  proof (cases e2)
    case (Some a)
    with w l assms(1) show ?thesis by (simp add: loop_body_def Let_def)
  next
    case None
    show ?thesis
    proof (cases "buffer_pop (key_fn z d) (buffer s2)")
      case None
      with w l assms(1) \<open>e2 = None\<close> show ?thesis by (simp add: loop_body_def Let_def)
    next
      case (Some a)
      obtain v b where a: "a = (v, b)" by (cases a)
      from buffer_pop_Some [OF Some [unfolded a]] have "length (buffer s2) = Suc (length b)" by simp
      with l have "int (length b) \<le> n" by simp
      with w assms(1) \<open>e2 = None\<close> Some a show ?thesis by (simp add: loop_body_def Let_def)
    qed
  qed
qed

lemma iter_loop_residual_bound:
  assumes bs: "buffer_size z = Some n" "0 \<le> n" and s: "int (length (buffer s)) \<le> n"
  shows "\<exists>J. janitored (final (iter_loop z ds s)) = janitored s @ J \<and> int (length J) \<le> n + 1"
proof -
  let ?I = "\<lambda>t. int (length (buffer t)) \<le> n \<and> janitored t = janitored s"
  let ?Q = "\<lambda>t. int (length (buffer t)) \<le> n + 1 \<and> janitored t = janitored s"
  have "\<exists>sx. final (iter_loop z ds s) = finally_block sx \<and> ?Q sx"
  proof (rule iter_loop_exit [where I = ?I and Q = ?Q])
    show "?I s" using s by simp
    show "?Q s" using s by simp
  next
    fix d t e s1
    assume "?I t" "loop_body z d t = Inl (e, s1)"
    with loop_body_len [OF bs, of t d] loop_body_frame(1) [of z d t e s1] show "?Q s1" by simp
  next
    fix d t y s1
    assume "?I t" "loop_body z d t = Inr (y, s1)"
    with loop_body_len [OF bs, of t d] loop_body_frame(2) [of z d t y s1] show "?I s1 \<and> ?Q s1" by simp
  qed
  then obtain sx where "final (iter_loop z ds s) = finally_block sx"
    "int (length (buffer sx)) \<le> n + 1" "janitored sx = janitored s" by blast
  then show ?thesis by (intro exI [of _ "map snd (buffer sx)"]) (simp add: finally_block_def)
qed

lemma loop_body_warned:
  "case loop_body z d s of
     Inl (e, s1) \<Rightarrow> warned s1 + (if warn_once_flag s1 then 1 else 0)
                     \<le> warned s + (if warn_once_flag s then 1 else 0)
   | Inr (y, s1) \<Rightarrow> warned s1 + (if warn_once_flag s1 then 1 else 0)
                     \<le> warned s + (if warn_once_flag s then 1 else 0)"
proof -
  obtain s2 e2 where w: "while_loop (ref_key_fn z) (buffer_size z) (key_fn z d) (ref_it s) s = (s2, e2)"
    by (cases "while_loop (ref_key_fn z) (buffer_size z) (key_fn z d) (ref_it s) s")
  from while_loop_warned [OF w] w show ?thesis
    by (auto simp: loop_body_def Let_def split: option.splits)
qed

lemma iter_loop_warned:
  "warned (final (iter_loop z ds s)) \<le> warned s + (if warn_once_flag s then 1 else 0)"
proof -
  let ?I = "\<lambda>t. warned t + (if warn_once_flag t then 1 else 0)
                 \<le> warned s + (if warn_once_flag s then 1 else (0::nat))"
  have "\<exists>sx. final (iter_loop z ds s) = finally_block sx \<and> ?I sx"
  proof (rule iter_loop_exit [where I = ?I and Q = ?I])
    show "?I s" by simp
    show "?I s" by simp
  next
    fix d t e s1
    assume "?I t" "loop_body z d t = Inl (e, s1)"
    with loop_body_warned [where z = z and d = d and s = t] show "?I s1" by simp
  next
    fix d t y s1
    assume "?I t" "loop_body z d t = Inr (y, s1)"
    with loop_body_warned [where z = z and d = d and s = t] show "?I s1 \<and> ?I s1" by simp
  qed
  then obtain sx where "final (iter_loop z ds s) = finally_block sx" "?I sx" by blast
  then show ?thesis by (simp add: finally_block_def split: if_splits)
qed

lemma while_loop_fifo_consumed:
  "while_loop rkf bs key refs s = (s1, e) \<Longrightarrow>
     subseq (map snd (evicted s) @ map snd (buffer s)) C \<Longrightarrow>
     \<exists>consumed. refs = consumed @ ref_it s1
        \<and> subseq (map snd (evicted s1) @ map snd (buffer s1)) (C @ consumed)"
proof (induction arbitrary: C rule: while_loop_cases)
  case (exhausted s)
  then show ?case by simp
next
  case (found refs s)
  then show ?case by simp
next
  case (duplicate r rest s)
  then show ?case by (intro exI [of _ "[r]"]) (simp add: subseq_append_right)
next
  case (evict_error r rest s s2 err)
  from evict_step_cases [OF evict_error(3)] evict_error(4) show ?case
    by (intro exI [of _ "[r]"]) (auto simp: subseq_append_right)
next
  case (step r rest s s2 s1 e)
  from evict_step_cases [OF step(3)]
  have "map snd (evicted s2) @ map snd (buffer s2) = map snd (evicted s) @ map snd (buffer s)"
    by auto
  with step(6) have "subseq (map snd (evicted s2) @ map snd (buffer s2)) C" by simp
  then have "subseq ((map snd (evicted s2) @ map snd (buffer s2)) @ [r]) (C @ [r])"
    by (rule list_emb_append_mono) simp
  then have "subseq (map snd (evicted (s2\<lparr>buffer := buffer s2 @ [(rkf r, r)]\<rparr>))
                @ map snd (buffer (s2\<lparr>buffer := buffer s2 @ [(rkf r, r)]\<rparr>))) (C @ [r])"
    by simp
  from step(5) [OF this] obtain consumed where
    "rest = consumed @ ref_it s1"
    "subseq (map snd (evicted s1) @ map snd (buffer s1)) ((C @ [r]) @ consumed)" by blast
  then show ?case by (intro exI [of _ "r # consumed"]) simp
qed

lemma subseq_drop_middle: "subseq (xs @ zs) (xs @ y # zs)"
  by (induction xs) auto

lemma loop_body_fifo:
  assumes "fifo_inv R s"
  shows "case loop_body z d s of Inl (e, s1) \<Rightarrow> fifo_inv R s1 | Inr (y, s1) \<Rightarrow> fifo_inv R s1"
proof -
  from assms obtain C where C: "R = C @ ref_it s"
    "subseq (map snd (evicted s) @ map snd (buffer s)) C" by (auto simp: fifo_inv_def)
  obtain s2 e2 where w: "while_loop (ref_key_fn z) (buffer_size z) (key_fn z d) (ref_it s) s = (s2, e2)"
    by (cases "while_loop (ref_key_fn z) (buffer_size z) (key_fn z d) (ref_it s) s")
  from while_loop_fifo_consumed [OF w C(2)] obtain consumed where
    c: "ref_it s = consumed @ ref_it s2"
    "subseq (map snd (evicted s2) @ map snd (buffer s2)) (C @ consumed)" by blast
  with C have f2: "fifo_inv R s2" by (auto simp: fifo_inv_def)
  show ?thesis
  proof (cases e2)
    case (Some a)
    with w f2 show ?thesis by (simp add: loop_body_def Let_def)
  next
    case None
    show ?thesis
    proof (cases "buffer_pop (key_fn z d) (buffer s2)")
      case None
      with w f2 \<open>e2 = None\<close> show ?thesis by (simp add: loop_body_def Let_def)
    next
      case (Some a)
      obtain v b where a: "a = (v, b)" by (cases a)
      from buffer_pop_split [OF Some [unfolded a]] obtain pre post where
        pp: "buffer s2 = pre @ (key_fn z d, v) # post" "b = pre @ post" by blast
      have "subseq (map snd (evicted s2) @ map snd b) (map snd (evicted s2) @ map snd (buffer s2))"
        unfolding pp using subseq_drop_middle [of "map snd (evicted s2) @ map snd pre" "map snd post" v] by simp
      with c(2) have "subseq (map snd (evicted s2) @ map snd b) (C @ consumed)"
        using subseq_order.order_trans by blast
      with C c(1) have "fifo_inv R (s2\<lparr>buffer := b\<rparr>)" by (auto simp: fifo_inv_def)
      with w \<open>e2 = None\<close> Some a show ?thesis by (simp add: loop_body_def Let_def)
    qed
  qed
qed

lemma iter_loop_fifo:
  assumes "fifo_inv R s"
  shows "\<exists>J. janitored (final (iter_loop z ds s)) = janitored s @ J
           \<and> subseq (map snd (evicted (final (iter_loop z ds s))) @ J) R"
proof -
  let ?I = "\<lambda>t. fifo_inv R t \<and> janitored t = janitored s"
  have "\<exists>sx. final (iter_loop z ds s) = finally_block sx \<and> ?I sx"
  proof (rule iter_loop_exit [where I = ?I and Q = ?I])
    show "?I s" using assms by simp
    show "?I s" using assms by simp
  next
    fix d t e s1
    assume "?I t" "loop_body z d t = Inl (e, s1)"
    with loop_body_fifo [of R t z d] loop_body_frame(1) [of z d t e s1] show "?I s1" by simp
  next
    fix d t y s1
    assume "?I t" "loop_body z d t = Inr (y, s1)"
    with loop_body_fifo [of R t z d] loop_body_frame(2) [of z d t y s1] show "?I s1 \<and> ?I s1" by simp
  qed
  then obtain sx C where sx: "final (iter_loop z ds s) = finally_block sx"
    "janitored sx = janitored s" "R = C @ ref_it sx"
    "subseq (map snd (evicted sx) @ map snd (buffer sx)) C" by (auto simp: fifo_inv_def)
  from sx(3,4) have "subseq (map snd (evicted sx) @ map snd (buffer sx)) R"
    by (simp add: subseq_append_right)
  with sx(1,2) show ?thesis
    by (intro exI [of _ "map snd (buffer sx)"]) (simp add: finally_block_def)
qed

lemma eviction_example_run:
  "IterKeyZipper_iter eviction_example =
     \<lparr>yields = [Plain (Merged 33)], raised = Some BufferError,
      final = \<lparr>ref_it = [], warn_once_flag = False, buffer = [], warned = 1,
                janitored = [(''b'', 2)], evicted = [(''a'', (''a'', 1))]\<rparr>\<rparr>"
  by (simp add: IterKeyZipper_iter_def eviction_example_def IterableWrapper_def
      iter_start_def loop_body_def in_buffer_def evict_step_def make_result_def
      finally_block_def Let_def)

lemma overflow_example_body:
  "loop_body overflow_example (''z'', 0) (iter_start overflow_example) =
     Inl (BufferError,
          \<lparr>ref_it = [], warn_once_flag = True,
           buffer = [(''a'', (''a'', 1)), (''b'', (''b'', 2))], warned = 0,
           janitored = [], evicted = []\<rparr>)"
  by (simp add: overflow_example_def IterableWrapper_def
      iter_start_def loop_body_def in_buffer_def evict_step_def Let_def)

lemma overflow_example_run:
  "IterKeyZipper_iter overflow_example =
     \<lparr>yields = [], raised = Some BufferError,
      final = \<lparr>ref_it = [], warn_once_flag = True, buffer = [], warned = 0,
                janitored = [(''a'', 1), (''b'', 2)], evicted = []\<rparr>\<rparr>"
  by (simp add: IterKeyZipper_iter_def overflow_example_def IterableWrapper_def
      iter_start_def loop_body_def in_buffer_def evict_step_def make_result_def
      finally_block_def Let_def)


lemma init_fields:
  assumes "IterKeyZipper_init src rf kf rkf kk bs mf = Inr z"
  shows "source_datapipe z = src \<and> ref_datapipe z = rf \<and> key_fn z = kf \<and> ref_key_fn z = rkf
       \<and> keep_key z = kk \<and> buffer_size z = bs \<and> merge_fn z = mf \<and> (\<forall>n. bs = Some n \<longrightarrow> 0 < n)"
  using assms by (auto simp: IterKeyZipper_init_def split: option.splits if_splits)


text \<open>
  What the code keeps of the bound. For a keyed stream joiner built by the constructor
  with a finite buffer_size n: the check runs before the insertion and compares with
  \<open>>\<close>, so the buffer holds at most n + 1 entries while a match is looked for, and at
  most n whenever a value is yielded (hence at most n + 1 items are left to release at
  the end of a pass); an eviction happens exactly when the buffer holds more than n
  entries at that check, and removes the entry at the head of the buffer, the oldest
  inserted; over a pass the evicted items, followed by the items left at the end, are in
  the order of the reference stream; at most one warning is emitted in a pass; and when
  the keys of the reference stream are distinct, a primary item whose key is the key of
  an evicted entry is not yielded: the pass ends with BufferError at this item or before.
\<close>

lemma IterKeyZipper_buffer_eviction:
  assumes init: "IterKeyZipper_init src rf kf rkf kk (Some n) mf = Inr z"
  shows "(int (length (buffer s)) \<le> n \<longrightarrow>
            (case loop_body z d s of
               Inl (e, s1) \<Rightarrow> int (length (buffer s1)) \<le> n + 1
             | Inr (y, s1) \<Rightarrow> int (length (buffer s1)) \<le> n))
       \<and> int (length (janitored (final (IterKeyZipper_iter z)))) \<le> n + 1
       \<and> (evict_step (buffer_size z) s = (s1, e) \<longrightarrow>
            (if int (length (buffer s)) > n
             then \<exists>x. buffer s = x # buffer s1 \<and> evicted s1 = evicted s @ [x] \<and> e = None
             else s1 = s \<and> e = None))
       \<and> subseq (map snd (evicted (final (IterKeyZipper_iter z)))
                  @ janitored (final (IterKeyZipper_iter z))) (dp_items rf)
       \<and> warned (final (IterKeyZipper_iter z)) \<le> 1
       \<and> (distinct (map rkf (dp_items rf)) \<longrightarrow>
            (\<forall>i<length (dp_items src).
               kf (dp_items src ! i) \<in> fst ` set (evicted (final (IterKeyZipper_iter z)))
               \<longrightarrow> raised (IterKeyZipper_iter z) = Some BufferError
                   \<and> length (yields (IterKeyZipper_iter z)) \<le> i))"
proof -
  from init_fields [OF init] have f: "source_datapipe z = src" "ref_datapipe z = rf"
    "key_fn z = kf" "ref_key_fn z = rkf" "buffer_size z = Some n" and n: "0 < n" by auto
  have A: "int (length (buffer s)) \<le> n \<longrightarrow>
            (case loop_body z d s of
               Inl (e, s1) \<Rightarrow> int (length (buffer s1)) \<le> n + 1
             | Inr (y, s1) \<Rightarrow> int (length (buffer s1)) \<le> n)"
    using loop_body_len [OF f(5), of s d] n by simp
  have B: "int (length (janitored (final (IterKeyZipper_iter z)))) \<le> n + 1"
    using iter_loop_residual_bound [OF f(5), of "iter_start z" "dp_items (source_datapipe z)"] n
    by (auto simp: IterKeyZipper_iter_def iter_start_def)
  have C: "evict_step (buffer_size z) s = (s1, e) \<longrightarrow>
            (if int (length (buffer s)) > n
             then \<exists>x. buffer s = x # buffer s1 \<and> evicted s1 = evicted s @ [x] \<and> e = None
             else s1 = s \<and> e = None)"
    using evict_step_cases [of "Some n" s s1 e] n unfolding f(5) by auto
  have "fifo_inv (dp_items rf) (iter_start z)"
    by (simp add: fifo_inv_def iter_start_def f)
  from iter_loop_fifo [OF this, of z "dp_items (source_datapipe z)"]
  have D: "subseq (map snd (evicted (final (IterKeyZipper_iter z)))
                  @ janitored (final (IterKeyZipper_iter z))) (dp_items rf)"
    by (simp add: IterKeyZipper_iter_def iter_start_def)
  have E: "warned (final (IterKeyZipper_iter z)) \<le> 1"
    using iter_loop_warned [of z "dp_items (source_datapipe z)" "iter_start z"]
    by (simp add: IterKeyZipper_iter_def iter_start_def)
  have F: "distinct (map rkf (dp_items rf)) \<longrightarrow>
            (\<forall>i<length (dp_items src).
               kf (dp_items src ! i) \<in> fst ` set (evicted (final (IterKeyZipper_iter z)))
               \<longrightarrow> raised (IterKeyZipper_iter z) = Some BufferError
                   \<and> length (yields (IterKeyZipper_iter z)) \<le> i)"
  proof
    assume "distinct (map rkf (dp_items rf))"
    then have "key_inv (ref_key_fn z) (ref_it (iter_start z)) (iter_start z) {}"
      by (simp add: key_inv_def iter_start_def f)
    moreover have "\<And>m. buffer_size z = Some m \<Longrightarrow> 0 \<le> m" using f(5) n by simp
    ultimately show "\<forall>i<length (dp_items src).
               kf (dp_items src ! i) \<in> fst ` set (evicted (final (IterKeyZipper_iter z)))
               \<longrightarrow> raised (IterKeyZipper_iter z) = Some BufferError
                   \<and> length (yields (IterKeyZipper_iter z)) \<le> i"
      using iter_loop_evicted_no_match [of z "iter_start z" "{}" "dp_items src"]
      by (simp add: IterKeyZipper_iter_def f)
  qed
  from A B C D E F show ?thesis by blast
qed

lemma IterKeyZipper_buffer_eviction_example:
  "IterKeyZipper_init (IterableWrapper [(''c'', 30), (''a'', 10)])
       (IterableWrapper [(''a'', 1), (''b'', 2), (''c'', 3)]) fst fst False (Some 1)
       (Some (\<lambda>t1 t2. snd t1 + snd t2)) = Inr eviction_example
   \<and> evicted (final (IterKeyZipper_iter eviction_example)) = [(''a'', (''a'', 1))]
   \<and> raised (IterKeyZipper_iter eviction_example) = Some BufferError
   \<and> length (yields (IterKeyZipper_iter eviction_example)) \<le> 1
   \<and> warned (final (IterKeyZipper_iter eviction_example)) \<le> 1
   \<and> int (length (janitored (final (IterKeyZipper_iter eviction_example)))) \<le> 1 + 1
   \<and> int (length (buffer (iter_start eviction_example))) \<le> 1
   \<and> (case loop_body eviction_example (''c'', 30) (iter_start eviction_example) of
         Inl (e, s1) \<Rightarrow> int (length (buffer s1)) \<le> 1 + 1
       | Inr (y, s1) \<Rightarrow> int (length (buffer s1)) \<le> 1)"
proof -
  let ?src = "IterableWrapper [(''c'', 30 :: int), (''a'', 10)]"
  let ?rf = "IterableWrapper [(''a'', 1 :: int), (''b'', 2), (''c'', 3)]"
  have init: "IterKeyZipper_init ?src ?rf fst fst False (Some 1)
       (Some (\<lambda>t1 t2. snd t1 + snd t2)) = Inr eviction_example"
    by (simp add: IterKeyZipper_init_def eviction_example_def)
  note t = IterKeyZipper_buffer_eviction [OF init, where s = "iter_start eviction_example"
      and d = "(''c'', 30)"]
  have ev: "evicted (final (IterKeyZipper_iter eviction_example)) = [(''a'', (''a'', 1))]"
    by (simp add: eviction_example_run)
  have h1: "distinct (map fst (dp_items ?rf))" by (simp add: IterableWrapper_def)
  have h2: "(1::nat) < length (dp_items ?src)" by (simp add: IterableWrapper_def)
  have h3: "fst (dp_items ?src ! 1) \<in> fst ` set (evicted (final (IterKeyZipper_iter eviction_example)))"
    by (simp add: ev IterableWrapper_def)
  have h4: "int (length (buffer (iter_start eviction_example))) \<le> 1"
    by (simp add: iter_start_def)
  from t h1 h2 h3 have "raised (IterKeyZipper_iter eviction_example) = Some BufferError"
    "length (yields (IterKeyZipper_iter eviction_example)) \<le> 1" by blast+
  moreover from t have "warned (final (IterKeyZipper_iter eviction_example)) \<le> 1"
    "int (length (janitored (final (IterKeyZipper_iter eviction_example)))) \<le> 1 + 1" by blast+
  moreover from t h4 have "case loop_body eviction_example (''c'', 30) (iter_start eviction_example) of
         Inl (e, s1) \<Rightarrow> int (length (buffer s1)) \<le> 1 + 1
       | Inr (y, s1) \<Rightarrow> int (length (buffer s1)) \<le> 1" by blast
  ultimately show ?thesis using init ev h4 by blast
qed

text \<open>
  Claim C2 fails on the code. The joiner is built with buffer_size 1, the reference pipe
  holds the keys a and b and the primary pipe the key z: the search for z leaves two
  entries in the buffer, one more than buffer_size, and both are released at the end of
  the pass. The guard of line 103 tests \<open>len(self.buffer) > self.buffer_size\<close> before
  the insertion of line 111, so nothing is evicted until the buffer already holds more
  than buffer_size entries, although the docstring calls buffer_size the size of the
  buffer and the warning of the eviction says that the buffer reaches its upper limit.
\<close>

theorem buffer_exceeds_buffer_size:
  "buffer_size overflow_example = Some 1
   \<and> length (buffer (iter_start overflow_example)) = 0
   \<and> (\<exists>e s1. loop_body overflow_example (''z'', 0) (iter_start overflow_example) = Inl (e, s1)
         \<and> length (buffer s1) = 2)
   \<and> janitored (final (IterKeyZipper_iter overflow_example)) = [(''a'', 1), (''b'', 2)]"
  by (simp add: overflow_example_body overflow_example_run)
    (simp add: overflow_example_def iter_start_def)

section \<open>Properties of the graph queries\<close>

subsection \<open>The depth-first search of find_dps\<close>

lemma all_entries_items_append [simp]:
  "all_entries_items (es @ es') = all_entries_items es @ all_entries_items es'"
  by (induction es) auto

lemma gsize_entry: "(i, d, g) \<in> set es \<Longrightarrow> gsize g < gsize (Graph es)"
  by (induction es) auto

lemma all_entries_sub:
  "e \<in> set (all_entries g) \<Longrightarrow> set (all_entries (snd (snd e))) \<subseteq> set (all_entries g)"
  "e \<in> set (all_entries_items es) \<Longrightarrow> set (all_entries (snd (snd e))) \<subseteq> set (all_entries_items es)"
  by (induction g and es rule: all_entries_all_entries_items.induct) auto


lemma helper_visits:
  "\<exists>V. helper ty T g st = (fst st \<union> fst ` set V, snd st @ map snd (filter (\<lambda>(i, d). ty d = T) V))
       \<and> distinct (map fst V) \<and> fst ` set V \<inter> fst st = {}
       \<and> set V \<subseteq> (\<lambda>(i, d, g). (i, d)) ` set (all_entries g)"
  "\<exists>V. helper_items ty T es st = (fst st \<union> fst ` set V, snd st @ map snd (filter (\<lambda>(i, d). ty d = T) V))
       \<and> distinct (map fst V) \<and> fst ` set V \<inter> fst st = {}
       \<and> set V \<subseteq> (\<lambda>(i, d, g). (i, d)) ` set (all_entries_items es)"
proof (induction ty T g st and ty T es st rule: helper_helper_items.induct)
  case (1 ty T es st)
  then show ?case by simp
next
  case (2 ty T st)
  show ?case by (intro exI [of _ "[]"]) simp
next
  case (3 ty T dp_id dp src_graph es st)
  show ?case
  proof (cases "dp_id \<in> fst st")
    case True
    from 3(1) [OF True] obtain V where
      "helper_items ty T es st = (fst st \<union> fst ` set V, snd st @ map snd (filter (\<lambda>(i, d). ty d = T) V))"
      "distinct (map fst V)" "fst ` set V \<inter> fst st = {}"
      "set V \<subseteq> (\<lambda>(i, d, g). (i, d)) ` set (all_entries_items es)" by blast
    with True show ?thesis by (intro exI [of _ V]) auto
  next
    case False
    let ?st1 = "(insert dp_id (fst st), if ty dp = T then snd st @ [dp] else snd st)"
    from 3(2) [OF False] obtain V1 where v1:
      "helper ty T src_graph ?st1
         = (fst ?st1 \<union> fst ` set V1, snd ?st1 @ map snd (filter (\<lambda>(i, d). ty d = T) V1))"
      "distinct (map fst V1)" "fst ` set V1 \<inter> fst ?st1 = {}"
      "set V1 \<subseteq> (\<lambda>(i, d, g). (i, d)) ` set (all_entries src_graph)" by blast
    let ?st2 = "helper ty T src_graph ?st1"
    from 3(3) [OF False] obtain V2 where v2:
      "helper_items ty T es ?st2
         = (fst ?st2 \<union> fst ` set V2, snd ?st2 @ map snd (filter (\<lambda>(i, d). ty d = T) V2))"
      "distinct (map fst V2)" "fst ` set V2 \<inter> fst ?st2 = {}"
      "set V2 \<subseteq> (\<lambda>(i, d, g). (i, d)) ` set (all_entries_items es)" by blast
    let ?V = "(dp_id, dp) # V1 @ V2"
    have r: "helper_items ty T ((dp_id, dp, src_graph) # es) st = helper_items ty T es ?st2"
      using False by simp
    have "helper_items ty T es ?st2
        = (fst st \<union> fst ` set ?V, snd st @ map snd (filter (\<lambda>(i, d). ty d = T) ?V))"
      unfolding v2(1) unfolding v1(1) by auto
    moreover have "distinct (map fst ?V)"
      using v1(2,3) v2(2,3) unfolding v1(1) by auto
    moreover have "fst ` set ?V \<inter> fst st = {}"
      using False v1(3) v2(3) unfolding v1(1) by auto
    moreover have "set ?V \<subseteq> (\<lambda>(i, d, g). (i, d)) ` set (all_entries_items ((dp_id, dp, src_graph) # es))"
      using v1(4) v2(4) by auto
    ultimately show ?thesis unfolding r by blast
  qed
qed

lemma keys_of_Graph: "keys_of (Graph es) = fst ` set (all_entries_items es)"
  by (simp add: keys_of_def)

lemma helper_cache:
  assumes G: "consistent G"
  shows "set (all_entries g) \<subseteq> set (all_entries G) \<longrightarrow> cache_inv G (fst st) (gsize g) \<longrightarrow>
           fst (helper ty T g st) = fst st \<union> keys_of g
           \<and> fresh_complete G (fst st) (fst st \<union> keys_of g)"
    and "\<forall>n. set (all_entries_items es) \<subseteq> set (all_entries G) \<longrightarrow>
           (\<forall>e\<in>set es. gsize (snd (snd e)) < n) \<longrightarrow> cache_inv G (fst st) n \<longrightarrow>
           fst (helper_items ty T es st) = fst st \<union> fst ` set (all_entries_items es)
           \<and> fresh_complete G (fst st) (fst st \<union> fst ` set (all_entries_items es))"
proof (induction ty T g st and ty T es st rule: helper_helper_items.induct)
  case (1 ty T es st)
  show ?case
  proof (intro impI)
    assume sub: "set (all_entries (Graph es)) \<subseteq> set (all_entries G)"
      and inv: "cache_inv G (fst st) (gsize (Graph es))"
    have "\<forall>e\<in>set es. gsize (snd (snd e)) < gsize (Graph es)"
      using gsize_entry by fastforce
    with 1 sub inv show "fst (helper ty T (Graph es) st) = fst st \<union> keys_of (Graph es)
           \<and> fresh_complete G (fst st) (fst st \<union> keys_of (Graph es))"
      by (simp add: keys_of_Graph)
  qed
next
  case (2 ty T st)
  show ?case by (simp add: fresh_complete_def)
next
  case (3 ty T i d gi es st)
  let ?c = "fst st"
  show ?case
  proof (intro allI impI)
    fix n
    assume sub: "set (all_entries_items ((i, d, gi) # es)) \<subseteq> set (all_entries G)"
      and small: "\<forall>e\<in>set ((i, d, gi) # es). gsize (snd (snd e)) < n"
      and inv: "cache_inv G ?c n"
    from sub have e0: "(i, d, gi) \<in> set (all_entries G)"
      and subg: "set (all_entries gi) \<subseteq> set (all_entries G)"
      and subes: "set (all_entries_items es) \<subseteq> set (all_entries G)" by auto
    from small have smallg: "gsize gi < n" and smalles: "\<forall>e\<in>set es. gsize (snd (snd e)) < n"
      by auto
    have same: "\<And>e. e \<in> set (all_entries G) \<Longrightarrow> fst e = i \<Longrightarrow> e = (i, d, gi)"
      using G e0 unfolding consistent_def by fastforce
    show "fst (helper_items ty T ((i, d, gi) # es) st)
            = ?c \<union> fst ` set (all_entries_items ((i, d, gi) # es))
          \<and> fresh_complete G ?c (?c \<union> fst ` set (all_entries_items ((i, d, gi) # es)))"
    proof (cases "i \<in> ?c")
      case True
      from inv e0 True smallg have kg: "keys_of gi \<subseteq> ?c"
        unfolding cache_inv_def by fastforce
      from 3(1) [OF True] subes smalles inv
      have r: "fst (helper_items ty T es st) = ?c \<union> fst ` set (all_entries_items es)"
        and f: "fresh_complete G ?c (?c \<union> fst ` set (all_entries_items es))" by auto
      have eq: "?c \<union> fst ` set (all_entries_items ((i, d, gi) # es))
          = ?c \<union> fst ` set (all_entries_items es)"
        using True kg by (auto simp: keys_of_def)
      show ?thesis unfolding eq using r f True by simp
    next
      case False
      let ?st1 = "(insert i ?c, if ty d = T then snd st @ [d] else snd st)"
      let ?c2 = "insert i ?c \<union> keys_of gi"
      have inv1: "cache_inv G (fst ?st1) (gsize gi)"
        unfolding cache_inv_def
      proof (intro ballI impI)
        fix e assume e: "e \<in> set (all_entries G)" and m: "fst e \<in> fst ?st1"
        show "keys_of (snd (snd e)) \<subseteq> fst ?st1 \<or> gsize gi \<le> gsize (snd (snd e))"
        proof (cases "fst e = i")
          case True
          with same [OF e] show ?thesis by simp
        next
          case False
          with m have "fst e \<in> ?c" by simp
          with inv e have "keys_of (snd (snd e)) \<subseteq> ?c \<or> n \<le> gsize (snd (snd e))"
            unfolding cache_inv_def by blast
          with smallg show ?thesis by auto
        qed
      qed
      from 3(2) [OF False] subg inv1
      have r1: "fst (helper ty T gi ?st1) = ?c2"
        and f1: "fresh_complete G (insert i ?c) ?c2" by auto
      have inv2: "cache_inv G (fst (helper ty T gi ?st1)) n"
        unfolding r1 cache_inv_def
      proof (intro ballI impI)
        fix e assume e: "e \<in> set (all_entries G)" and m: "fst e \<in> ?c2"
        show "keys_of (snd (snd e)) \<subseteq> ?c2 \<or> n \<le> gsize (snd (snd e))"
        proof (cases "fst e = i")
          case True
          with same [OF e] show ?thesis by auto
        next
          case ni: False
          show ?thesis
          proof (cases "fst e \<in> ?c")
            case True
            with inv e have "keys_of (snd (snd e)) \<subseteq> ?c \<or> n \<le> gsize (snd (snd e))"
              unfolding cache_inv_def by blast
            then show ?thesis by auto
          next
            case False
            with ni m have "fst e \<in> ?c2 - insert i ?c" by auto
            with f1 e show ?thesis unfolding fresh_complete_def by blast
          qed
        qed
      qed
      from 3(3) [OF False] subes smalles inv2
      have r2: "fst (helper_items ty T es (helper ty T gi ?st1))
                 = ?c2 \<union> fst ` set (all_entries_items es)"
        and f2: "fresh_complete G ?c2 (?c2 \<union> fst ` set (all_entries_items es))"
        unfolding r1 by auto
      have eq: "?c \<union> fst ` set (all_entries_items ((i, d, gi) # es))
          = ?c2 \<union> fst ` set (all_entries_items es)"
        by (auto simp: keys_of_def)
      have "fresh_complete G ?c (?c2 \<union> fst ` set (all_entries_items es))"
        unfolding fresh_complete_def
      proof (intro ballI impI)
        fix e assume e: "e \<in> set (all_entries G)"
          and m: "fst e \<in> (?c2 \<union> fst ` set (all_entries_items es)) - ?c"
        show "keys_of (snd (snd e)) \<subseteq> ?c2 \<union> fst ` set (all_entries_items es)"
        proof (cases "fst e = i")
          case True
          with same [OF e] show ?thesis by auto
        next
          case ni: False
          show ?thesis
          proof (cases "fst e \<in> ?c2")
            case True
            with ni m have "fst e \<in> ?c2 - insert i ?c" by auto
            with f1 e have "keys_of (snd (snd e)) \<subseteq> ?c2" unfolding fresh_complete_def by blast
            then show ?thesis by auto
          next
            case False
            with m have "fst e \<in> (?c2 \<union> fst ` set (all_entries_items es)) - ?c2" by auto
            with f2 e show ?thesis unfolding fresh_complete_def by blast
          qed
        qed
      qed
      with r2 False show ?thesis unfolding eq by simp
    qed
  qed
qed

lemma wf_graph_consistent: "wf_graph id_of G \<Longrightarrow> consistent G"
  by (auto simp: wf_graph_def consistent_def list_all_iff)

lemma wf_graph_key: "wf_graph id_of G \<Longrightarrow> (i, d, g) \<in> set (all_entries G) \<Longrightarrow> i = id_of d"
  by (auto simp: wf_graph_def list_all_iff)

lemma filter_distinct_key:
  "distinct (map fst V) \<Longrightarrow> (i, q) \<in> set V \<Longrightarrow> filter (\<lambda>p. fst p = i) V = [(i, q)]"
proof (induction V)
  case Nil
  then show ?case by simp
next
  case (Cons p V)
  show ?case
  proof (cases "p = (i, q)")
    case True
    with Cons.prems have "\<forall>x\<in>set V. fst x \<noteq> i" by force
    then have "filter (\<lambda>p. fst p = i) V = []" by (simp add: filter_empty_conv)
    with True show ?thesis by simp
  next
    case False
    with Cons.prems have m: "(i, q) \<in> set V" by simp
    then have "i \<in> fst ` set V" by force
    with Cons.prems have "fst p \<noteq> i" by auto
    with Cons m show ?thesis by simp
  qed
qed

lemma find_dps_visits:
  "\<exists>V. find_dps ty G T = map snd (filter (\<lambda>(i, d). ty d = T) V)
       \<and> distinct (map fst V)
       \<and> set V \<subseteq> (\<lambda>(i, d, g). (i, d)) ` set (all_entries G)
       \<and> (consistent G \<longrightarrow> fst ` set V = keys_of G)"
proof -
  from helper_visits(1) [of ty T G "({}, [])"] obtain V where V:
    "helper ty T G ({}, []) = (fst ` set V, map snd (filter (\<lambda>(i, d). ty d = T) V))"
    "distinct (map fst V)" "set V \<subseteq> (\<lambda>(i, d, g). (i, d)) ` set (all_entries G)"
    by auto
  have "consistent G \<longrightarrow> fst ` set V = keys_of G"
  proof
    assume c: "consistent G"
    have "cache_inv G (fst ({} :: nat set, [] :: 'a list)) (gsize G)" by (simp add: cache_inv_def)
    with helper_cache(1) [OF c, of G "({}, [])" ty T]
    have "fst (helper ty T G ({}, [])) = keys_of G" by simp
    with V(1) show "fst ` set V = keys_of G" by simp
  qed
  with V show ?thesis unfolding find_dps_def by (intro exI [of _ V]) simp
qed


text \<open>
  Claim C4. In a well-formed graph G, every pipe Q that occurs in G (at any depth, on
  any number of paths) is exactly once in findByType(G, type(Q)): the pipes of the
  result whose identity is Q's are Q alone. Every pipe of findByType(G, T) has exactly
  the class T, so a pipe whose class is a strict subclass of T is not collected.
\<close>

theorem find_dps_exactly_once:
  assumes wf: "wf_graph id_of G" and q: "(i, q, gq) \<in> set (all_entries G)"
  shows "filter (\<lambda>d. id_of d = id_of q) (find_dps type_of G (type_of q)) = [q]
       \<and> list_all (\<lambda>d. type_of d = T) (find_dps type_of G T)
       \<and> (\<forall>d. issubclass (type_of d) T \<and> type_of d \<noteq> T \<longrightarrow> d \<notin> set (find_dps type_of G T))"
proof -
  have c: "consistent G" using wf by (rule wf_graph_consistent)
  from find_dps_visits [of type_of G "type_of q"] c obtain V where V:
    "find_dps type_of G (type_of q) = map snd (filter (\<lambda>(i, d). type_of d = type_of q) V)"
    "distinct (map fst V)" "set V \<subseteq> (\<lambda>(i, d, g). (i, d)) ` set (all_entries G)"
    "fst ` set V = keys_of G" by blast
  have iq: "i = id_of q" using wf q by (rule wf_graph_key)
  have key: "\<And>k d. (k, d) \<in> set V \<Longrightarrow> k = id_of d"
    using V(3) wf_graph_key [OF wf] by fastforce
  from q have "i \<in> keys_of G" by (force simp: keys_of_def)
  with V(4) obtain d where d: "(i, d) \<in> set V" by force
  with V(3) obtain g where "(i, d, g) \<in> set (all_entries G)" by auto
  with c q have "d = q" unfolding consistent_def by fastforce
  with d have qV: "(i, q) \<in> set V" by simp
  have "filter (\<lambda>d. id_of d = id_of q) (find_dps type_of G (type_of q))
      = map snd (filter (\<lambda>p. id_of (snd p) = id_of q \<and> type_of (snd p) = type_of q) V)"
    unfolding V(1) by (simp add: filter_map comp_def case_prod_unfold conj_commute)
  also have "\<dots> = map snd (filter (\<lambda>p. type_of (snd p) = type_of q) (filter (\<lambda>p. fst p = i) V))"
    using key iq by (auto simp: filter_map intro!: arg_cong [where f = "map snd"] filter_cong)
  also have "\<dots> = [q]"
    unfolding filter_distinct_key [OF V(2) qV] by simp
  finally have A: "filter (\<lambda>d. id_of d = id_of q) (find_dps type_of G (type_of q)) = [q]" .
  from find_dps_visits [of type_of G T] obtain W :: "(nat \<times> 'a) list" where
    "find_dps type_of G T = map snd (filter (\<lambda>(i, d). type_of d = T) W)" by blast
  then have B: "list_all (\<lambda>d. type_of d = T) (find_dps type_of G T)"
    by (auto simp: list_all_iff)
  then have C: "\<forall>d. issubclass (type_of d) T \<and> type_of d \<noteq> T \<longrightarrow> d \<notin> set (find_dps type_of G T)"
    by (auto simp: list_all_iff)
  from A B C show ?thesis by blast
qed

lemma diamond_wf: "wf_graph (\<lambda>p. p) (diamond_traverse 1)"
  by (simp add: wf_graph_def diamond_traverse_def)

lemma diamond_wf2: "wf_graph (\<lambda>p. p) (diamond_traverse 2)"
  by (simp add: wf_graph_def diamond_traverse_def)



theorem find_dps_exactly_once_witness:
  "filter (\<lambda>d. d = 4) (find_dps diamond_type (diamond_traverse 1) Wrapper_class) = [4]
   \<and> issubclass (diamond_type 3) Mapper_class
   \<and> diamond_type 3 \<noteq> Mapper_class
   \<and> 3 \<notin> set (find_dps diamond_type (diamond_traverse 1) Mapper_class)"
proof -
  have m: "(4, 4, Graph []) \<in> set (all_entries (diamond_traverse 1))"
    by (simp add: diamond_traverse_def)
  have t: "diamond_type 4 = Wrapper_class" by (simp add: diamond_type_def)
  have s: "issubclass (diamond_type 3) Mapper_class \<and> diamond_type 3 \<noteq> Mapper_class"
    by (simp add: diamond_type_def MyMapper_class_def Mapper_class_def IterDataPipe_class_def)
  note th = find_dps_exactly_once [OF diamond_wf m, where type_of = diamond_type
      and T = Mapper_class]
  from th t have "filter (\<lambda>d. d = 4) (find_dps diamond_type (diamond_traverse 1) Wrapper_class) = [4]"
    by simp
  moreover from th s have "3 \<notin> set (find_dps diamond_type (diamond_traverse 1) Mapper_class)"
    by blast
  ultimately show ?thesis using s by blast
qed


subsection \<open>The breadth-first search of list_dps\<close>

lemma enqueue_append:
  "enqueue es (q, c) = (q @ fst (enqueue es ([], c)), snd (enqueue es ([], c)))"
proof (induction es arbitrary: q c)
  case Nil
  then show ?case by simp
next
  case (Cons e es)
  obtain i d g where e: "e = (i, d, g)" by (cases e)
  show ?case
  proof (cases "i \<in> c")
    case True
    with Cons.IH [of q c] e show ?thesis by simp
  next
    case False
    from Cons.IH [of "q @ [(i, d, g)]" "insert i c"] Cons.IH [of "[(i, d, g)]" "insert i c"] False e
    show ?thesis by simp
  qed
qed

lemma expand_append:
  "expand fr (q, c) = (q @ fst (expand fr ([], c)), snd (expand fr ([], c)))"
proof (induction fr arbitrary: q c)
  case Nil
  then show ?case by simp
next
  case (Cons e fr)
  obtain i d g where e: "e = (i, d, g)" by (cases e)
  let ?qc = "enqueue (items g) ([], c)"
  have 1: "enqueue (items g) (q, c) = (q @ fst ?qc, snd ?qc)" by (rule enqueue_append)
  have 2: "?qc = (fst ?qc, snd ?qc)" by simp
  from Cons.IH [of "q @ fst ?qc" "snd ?qc"] Cons.IH [of "fst ?qc" "snd ?qc"]
  show ?case unfolding e expand.simps 1 by (subst (3 4) 2) (simp del: prod.collapse)
qed

lemma bfs_loop_acc_all:
  fixes q :: "(nat \<times> 'p \<times> 'p graph) list" and dps :: "'p list"
  shows "\<forall>acc. bfs_loop q c acc = acc @ bfs_loop q c []"
proof (induction q c dps rule: bfs_loop.induct)
  case (1 cache dps)
  then show ?case by simp
next
  case (2 dp_id dp subgraph q cache dps)
  let ?qc = "enqueue (items subgraph) (q, cache)"
  note ih = 2 [OF refl, rule_format]
  show ?case
  proof
    fix acc
    have s1: "bfs_loop ((dp_id, dp, subgraph) # q) cache acc = bfs_loop (fst ?qc) (snd ?qc) (acc @ [dp])"
      by (simp only: bfs_loop.simps Let_def)
    have s2: "bfs_loop ((dp_id, dp, subgraph) # q) cache [] = bfs_loop (fst ?qc) (snd ?qc) ([] @ [dp])"
      by (simp only: bfs_loop.simps Let_def)
    have s3: "bfs_loop (fst ?qc) (snd ?qc) (acc @ [dp]) = (acc @ [dp]) @ bfs_loop (fst ?qc) (snd ?qc) []"
      by (rule ih)
    have s4: "bfs_loop (fst ?qc) (snd ?qc) ([] @ [dp]) = ([] @ [dp]) @ bfs_loop (fst ?qc) (snd ?qc) []"
      by (rule ih)
    show "bfs_loop ((dp_id, dp, subgraph) # q) cache acc
        = acc @ bfs_loop ((dp_id, dp, subgraph) # q) cache []"
      unfolding s1 s2 s3 s4 by simp
  qed
qed

lemma bfs_loop_acc: "bfs_loop q c dps = dps @ bfs_loop q c []"
  by (rule bfs_loop_acc_all [rule_format])

lemma bfs_loop_frontier:
  "bfs_loop (q1 @ q2) c dps
     = bfs_loop (fst (expand q1 (q2, c))) (snd (expand q1 (q2, c))) (dps @ map (fst \<circ> snd) q1)"
proof (induction q1 arbitrary: q2 c dps)
  case Nil
  then show ?case by simp
next
  case (Cons e q1)
  obtain i d g where e: "e = (i, d, g)" by (cases e)
  let ?qc = "enqueue (items g) (q2, c)"
  have "enqueue (items g) (q1 @ q2, c) = (q1 @ fst ?qc, snd ?qc)"
    using enqueue_append [of "items g" "q1 @ q2" c] enqueue_append [of "items g" q2 c] by simp
  then have "bfs_loop ((e # q1) @ q2) c dps = bfs_loop (q1 @ fst ?qc) (snd ?qc) (dps @ [d])"
    unfolding e by (simp add: Let_def)
  also have "\<dots> = bfs_loop (fst (expand q1 (fst ?qc, snd ?qc))) (snd (expand q1 (fst ?qc, snd ?qc)))
       ((dps @ [d]) @ map (fst \<circ> snd) q1)"
    by (rule Cons.IH)
  finally show ?case unfolding e by (simp add: comp_def)
qed

lemma bfs_loop_levels:
  "bfs_loop q c [] = map (fst \<circ> snd) (concat (bfs_levels q c))"
proof (induction q c rule: bfs_levels.induct)
  case (1 frontier cache)
  show ?case
  proof (cases "frontier = []")
    case True
    then show ?thesis by (simp add: bfs_levels.simps)
  next
    case False
    let ?qc = "expand frontier ([], cache)"
    from bfs_loop_frontier [of frontier "[]" cache "[]"]
    have "bfs_loop frontier cache [] = bfs_loop (fst ?qc) (snd ?qc) (map (fst \<circ> snd) frontier)"
      by simp
    also have "\<dots> = map (fst \<circ> snd) frontier @ bfs_loop (fst ?qc) (snd ?qc) []"
      by (rule bfs_loop_acc)
    also have "\<dots> = map (fst \<circ> snd) frontier @ map (fst \<circ> snd) (concat (bfs_levels (fst ?qc) (snd ?qc)))"
      using 1 [OF False, of ?qc] by simp
    also have "\<dots> = map (fst \<circ> snd) (concat (bfs_levels frontier cache))"
      using False by (subst (2) bfs_levels.simps) (simp add: Let_def)
    finally show ?thesis .
  qed
qed

lemma enqueue_new:
  "\<exists>new. enqueue es (q, c) = (q @ new, c \<union> fst ` set new) \<and> distinct (map fst new)
      \<and> fst ` set new \<inter> c = {} \<and> set new \<subseteq> set es \<and> fst ` set es \<subseteq> c \<union> fst ` set new"
proof (induction es arbitrary: q c)
  case Nil
  show ?case by (intro exI [of _ "[]"]) simp
next
  case (Cons e es)
  obtain i d g where e: "e = (i, d, g)" by (cases e)
  show ?case
  proof (cases "i \<in> c")
    case True
    from Cons.IH [of q c] obtain new where
      "enqueue es (q, c) = (q @ new, c \<union> fst ` set new)" "distinct (map fst new)"
      "fst ` set new \<inter> c = {}" "set new \<subseteq> set es" "fst ` set es \<subseteq> c \<union> fst ` set new"
      by blast
    with True e show ?thesis by (intro exI [of _ new]) auto
  next
    case False
    from Cons.IH [of "q @ [(i, d, g)]" "insert i c"] obtain new where n:
      "enqueue es (q @ [(i, d, g)], insert i c) = ((q @ [(i, d, g)]) @ new, insert i c \<union> fst ` set new)"
      "distinct (map fst new)"
      "fst ` set new \<inter> insert i c = {}" "set new \<subseteq> set es"
      "fst ` set es \<subseteq> insert i c \<union> fst ` set new"
      by blast
    have "enqueue (e # es) (q, c) = (q @ ((i, d, g) # new), c \<union> fst ` set ((i, d, g) # new))"
      using False e n(1) by simp
    moreover have "distinct (map fst ((i, d, g) # new))" using n(2,3) by auto
    moreover have "fst ` set ((i, d, g) # new) \<inter> c = {}" using False n(3) by auto
    moreover have "set ((i, d, g) # new) \<subseteq> set (e # es)" using e n(4) by auto
    moreover have "fst ` set (e # es) \<subseteq> c \<union> fst ` set ((i, d, g) # new)" using e n(5) by auto
    ultimately show ?thesis by blast
  qed
qed

lemma expand_new:
  "\<exists>new. expand fr (q, c) = (q @ new, c \<union> fst ` set new) \<and> distinct (map fst new)
      \<and> fst ` set new \<inter> c = {}
      \<and> set new \<subseteq> (\<Union>e\<in>set fr. set (items (snd (snd e))))
      \<and> (\<forall>e\<in>set fr. fst ` set (items (snd (snd e))) \<subseteq> c \<union> fst ` set new)"
proof (induction fr arbitrary: q c)
  case Nil
  show ?case by (intro exI [of _ "[]"]) simp
next
  case (Cons e fr)
  obtain i d g where e: "e = (i, d, g)" by (cases e)
  from enqueue_new [of "items g" q c] obtain n1 where n1:
    "enqueue (items g) (q, c) = (q @ n1, c \<union> fst ` set n1)" "distinct (map fst n1)"
    "fst ` set n1 \<inter> c = {}" "set n1 \<subseteq> set (items g)"
    "fst ` set (items g) \<subseteq> c \<union> fst ` set n1" by blast
  from Cons.IH [of "q @ n1" "c \<union> fst ` set n1"] obtain n2 where n2:
    "expand fr (q @ n1, c \<union> fst ` set n1) = ((q @ n1) @ n2, (c \<union> fst ` set n1) \<union> fst ` set n2)"
    "distinct (map fst n2)" "fst ` set n2 \<inter> (c \<union> fst ` set n1) = {}"
    "set n2 \<subseteq> (\<Union>e\<in>set fr. set (items (snd (snd e))))"
    "\<forall>e\<in>set fr. fst ` set (items (snd (snd e))) \<subseteq> (c \<union> fst ` set n1) \<union> fst ` set n2" by blast
  have "expand (e # fr) (q, c) = (q @ (n1 @ n2), c \<union> fst ` set (n1 @ n2))"
    unfolding e using n1(1) n2(1) by (simp add: Un_assoc image_Un)
  moreover have "distinct (map fst (n1 @ n2))" using n1(2) n2(2,3) by auto
  moreover have "fst ` set (n1 @ n2) \<inter> c = {}" using n1(3) n2(3) by auto
  moreover have "set (n1 @ n2) \<subseteq> (\<Union>e\<in>set (e # fr). set (items (snd (snd e))))"
    using e n1(4) n2(4) by auto
  moreover have "\<forall>x\<in>set (e # fr). fst ` set (items (snd (snd x))) \<subseteq> c \<union> fst ` set (n1 @ n2)"
  proof
    fix x assume "x \<in> set (e # fr)"
    then consider "x = e" | "x \<in> set fr" by auto
    then show "fst ` set (items (snd (snd x))) \<subseteq> c \<union> fst ` set (n1 @ n2)"
    proof cases
      case 1
      with e n1(5) show ?thesis by (simp add: image_Un) blast
    next
      case 2
      with n2(5) have "fst ` set (items (snd (snd x))) \<subseteq> (c \<union> fst ` set n1) \<union> fst ` set n2"
        by blast
      then show ?thesis by (simp add: image_Un Un_assoc)
    qed
  qed
  ultimately show ?case by blast
qed

lemma bfs_levels_first: "fst ` set fr \<subseteq> fst ` set (concat (bfs_levels fr c))"
  by (subst bfs_levels.simps) (auto simp: Let_def)

lemma bfs_levels_keys:
  "distinct (map fst fr) \<Longrightarrow> fst ` set fr \<subseteq> c \<Longrightarrow>
     distinct (map fst (concat (bfs_levels fr c)))
     \<and> fst ` set (concat (bfs_levels fr c)) \<subseteq> fst ` set fr \<union> (- c)"
proof (induction fr c rule: bfs_levels.induct)
  case (1 fr c)
  show ?case
  proof (cases "fr = []")
    case True
    then show ?thesis by (simp add: bfs_levels.simps)
  next
    case False
    from expand_new [of fr "[]" c] obtain nf where nf:
      "expand fr ([], c) = (nf, c \<union> fst ` set nf)" "distinct (map fst nf)"
      "fst ` set nf \<inter> c = {}" by auto
    define rest where "rest = concat (bfs_levels nf (c \<union> fst ` set nf))"
    from 1(1) [OF False, of "expand fr ([], c)"] nf
    have ih: "distinct (map fst rest)"
      "fst ` set rest \<subseteq> fst ` set nf \<union> (- (c \<union> fst ` set nf))"
      unfolding rest_def by auto
    have eq: "concat (bfs_levels fr c) = fr @ rest"
      unfolding rest_def using False nf(1) by (subst bfs_levels.simps) (simp add: Let_def)
    from ih(2) nf(3) have d: "fst ` set rest \<inter> c = {}" by blast
    have "fst ` set fr \<inter> fst ` set rest = {}" using d 1(3) by blast
    then have "distinct (map fst (fr @ rest))" using 1(2) ih(1) by simp
    moreover have "fst ` set (fr @ rest) \<subseteq> fst ` set fr \<union> (- c)"
      using d by (simp add: image_Un) blast
    ultimately show ?thesis unfolding eq by blast
  qed
qed

lemma items_in_all_entries: "set (items g) \<subseteq> set (all_entries g)"
proof (cases g)
  case (Graph es)
  have "set es \<subseteq> set (all_entries_items es)"
    by (induction es) auto
  with Graph show ?thesis by simp
qed

lemma sub_items_in_all_entries:
  assumes "e \<in> set (all_entries G)"
  shows "set (items (snd (snd e))) \<subseteq> set (all_entries G)"
  using all_entries_sub(1) [OF assms] items_in_all_entries [of "snd (snd e)"] by blast

lemma bfs_levels_sub:
  "set fr \<subseteq> set (all_entries G) \<Longrightarrow> set (concat (bfs_levels fr c)) \<subseteq> set (all_entries G)"
proof (induction fr c rule: bfs_levels.induct)
  case (1 fr c)
  show ?case
  proof (cases "fr = []")
    case True
    then show ?thesis by (simp add: bfs_levels.simps)
  next
    case False
    from expand_new [of fr "[]" c] obtain nf where nf:
      "expand fr ([], c) = (nf, c \<union> fst ` set nf)"
      "set nf \<subseteq> (\<Union>e\<in>set fr. set (items (snd (snd e))))" by auto
    have "set nf \<subseteq> set (all_entries G)"
      using nf(2) 1(2) sub_items_in_all_entries [of _ G] by blast
    with 1(1) [OF False, of "expand fr ([], c)"] nf(1)
    have "set (concat (bfs_levels nf (c \<union> fst ` set nf))) \<subseteq> set (all_entries G)" by simp
    moreover have "concat (bfs_levels fr c) = fr @ concat (bfs_levels nf (c \<union> fst ` set nf))"
      using False nf(1) by (subst bfs_levels.simps) (simp add: Let_def)
    ultimately show ?thesis using 1(2) by simp
  qed
qed

lemma bfs_levels_closed:
  assumes G: "consistent G"
  shows "set fr \<subseteq> set (all_entries G) \<Longrightarrow> fst ` set fr \<subseteq> c \<Longrightarrow>
     (\<forall>e\<in>set (all_entries G). fst e \<in> c - fst ` set fr \<longrightarrow> fst ` set (items (snd (snd e))) \<subseteq> c)
     \<Longrightarrow> child_closed G (c \<union> fst ` set (concat (bfs_levels fr c)))"
proof (induction fr c rule: bfs_levels.induct)
  case (1 fr c)
  show ?case
  proof (cases "fr = []")
    case True
    with 1(4) show ?thesis by (simp add: bfs_levels.simps child_closed_def)
  next
    case False
    from expand_new [of fr "[]" c] obtain nf where nf:
      "expand fr ([], c) = (nf, c \<union> fst ` set nf)" "distinct (map fst nf)"
      "fst ` set nf \<inter> c = {}"
      "set nf \<subseteq> (\<Union>e\<in>set fr. set (items (snd (snd e))))"
      "\<forall>e\<in>set fr. fst ` set (items (snd (snd e))) \<subseteq> c \<union> fst ` set nf" by auto
    let ?c' = "c \<union> fst ` set nf"
    define rest where "rest = concat (bfs_levels nf ?c')"
    have a: "set nf \<subseteq> set (all_entries G)"
      using nf(4) 1(2) sub_items_in_all_entries [of _ G] by blast
    have b: "fst ` set nf \<subseteq> ?c'" by simp
    have c: "\<forall>e\<in>set (all_entries G). fst e \<in> ?c' - fst ` set nf
               \<longrightarrow> fst ` set (items (snd (snd e))) \<subseteq> ?c'"
    proof (intro ballI impI)
      fix e assume e: "e \<in> set (all_entries G)" and m: "fst e \<in> ?c' - fst ` set nf"
      then have ec: "fst e \<in> c" by auto
      show "fst ` set (items (snd (snd e))) \<subseteq> ?c'"
      proof (cases "fst e \<in> fst ` set fr")
        case True
        then obtain f where f: "f \<in> set fr" "fst f = fst e" by auto
        with 1(2) e G have "e = f" unfolding consistent_def by blast
        with f nf(5) show ?thesis by blast
      next
        case False
        with ec 1(4) e show ?thesis by blast
      qed
    qed
    from 1(1) [OF False, of "expand fr ([], c)"] nf(1) a b c
    have ih: "child_closed G (?c' \<union> fst ` set rest)" unfolding rest_def by simp
    have eq: "concat (bfs_levels fr c) = fr @ rest"
      unfolding rest_def using False nf(1) by (subst bfs_levels.simps) (simp add: Let_def)
    have "fst ` set nf \<subseteq> fst ` set rest" unfolding rest_def by (rule bfs_levels_first)
    with 1(3) have "c \<union> fst ` set (fr @ rest) = ?c' \<union> fst ` set rest"
      by (simp add: image_Un) blast
    with ih show ?thesis unfolding eq by simp
  qed
qed

lemma closed_all:
  assumes F: "child_closed G F"
  shows "set (all_entries g) \<subseteq> set (all_entries G) \<longrightarrow> fst ` set (items g) \<subseteq> F
           \<longrightarrow> fst ` set (all_entries g) \<subseteq> F"
    and "set (all_entries_items es) \<subseteq> set (all_entries G) \<longrightarrow> fst ` set es \<subseteq> F
           \<longrightarrow> fst ` set (all_entries_items es) \<subseteq> F"
proof (induction g and es rule: all_entries_all_entries_items.induct)
  case (1 es)
  then show ?case by simp
next
  case 2
  show ?case by simp
next
  case (3 i d g es)
  show ?case
  proof (intro impI)
    assume sub: "set (all_entries_items ((i, d, g) # es)) \<subseteq> set (all_entries G)"
      and top: "fst ` set ((i, d, g) # es) \<subseteq> F"
    from sub have e: "(i, d, g) \<in> set (all_entries G)" by simp
    from top have "i \<in> F" by simp
    with F e have "fst ` set (items g) \<subseteq> F" unfolding child_closed_def by fastforce
    with 3(1) sub have "fst ` set (all_entries g) \<subseteq> F" by simp
    moreover from 3(2) sub top have "fst ` set (all_entries_items es) \<subseteq> F" by simp
    ultimately show "fst ` set (all_entries_items ((i, d, g) # es)) \<subseteq> F"
      using \<open>i \<in> F\<close> by auto
  qed
qed

lemma list_dps_all_levels:
  "list_dps_all G c
     = map (fst \<circ> snd) (concat (bfs_levels (fst (enqueue (items G) ([], c)))
                                     (snd (enqueue (items G) ([], c)))))"
  unfolding list_dps_all_def Let_def by (rule bfs_loop_levels)

lemma list_dps_all_complete:
  assumes wf: "wf_graph id_of G"
  shows "id_of ` set (list_dps_all G {}) = keys_of G"
proof -
  have G: "consistent G" using wf by (rule wf_graph_consistent)
  from enqueue_new [of "items G" "[]" "{}"] obtain fr where fr:
    "enqueue (items G) ([], {}) = (fr, fst ` set fr)" "distinct (map fst fr)"
    "set fr \<subseteq> set (items G)" "fst ` set (items G) \<subseteq> fst ` set fr" by auto
  define L where "L = concat (bfs_levels fr (fst ` set fr))"
  have sub: "set fr \<subseteq> set (all_entries G)" using fr(3) items_in_all_entries by blast
  have h2: "fst ` set fr \<subseteq> fst ` set fr" by simp
  have h3: "\<forall>e\<in>set (all_entries G). fst e \<in> fst ` set fr - fst ` set fr
              \<longrightarrow> fst ` set (items (snd (snd e))) \<subseteq> fst ` set fr" by simp
  have c0: "child_closed G (fst ` set fr \<union> fst ` set L)"
    unfolding L_def by (rule bfs_levels_closed [OF G sub h2 h3])
  have first: "fst ` set fr \<subseteq> fst ` set L" unfolding L_def by (rule bfs_levels_first)
  then have "fst ` set fr \<union> fst ` set L = fst ` set L" by blast
  with c0 have cl: "child_closed G (fst ` set L)" by simp
  have top: "fst ` set (items G) \<subseteq> fst ` set L" using fr(4) first by blast
  have "fst ` set (all_entries G) \<subseteq> fst ` set L"
    using closed_all(1) [OF cl, of G] top by blast
  then have 1: "keys_of G \<subseteq> fst ` set L" unfolding keys_of_def .
  have Lsub: "set L \<subseteq> set (all_entries G)" unfolding L_def using sub by (rule bfs_levels_sub)
  then have 2: "fst ` set L \<subseteq> keys_of G" unfolding keys_of_def by blast
  have res: "list_dps_all G {} = map (fst \<circ> snd) L"
    unfolding L_def using list_dps_all_levels [of G "{}"] fr(1) by simp
  have key: "\<And>e. e \<in> set L \<Longrightarrow> id_of (fst (snd e)) = fst e"
  proof -
    fix e assume "e \<in> set L"
    with Lsub have "e \<in> set (all_entries G)" by blast
    then have "(fst e, fst (snd e), snd (snd e)) \<in> set (all_entries G)" by simp
    from wf_graph_key [OF wf this] show "id_of (fst (snd e)) = fst e" by simp
  qed
  have "id_of ` set (list_dps_all G {}) = (\<lambda>e. id_of (fst (snd e))) ` set L"
    unfolding res by (simp add: image_image)
  also have "\<dots> = fst ` set L" using key by (intro image_cong) simp_all
  finally have "id_of ` set (list_dps_all G {}) = fst ` set L" .
  with 1 2 show ?thesis by blast
qed

lemma exclude_loop_mono: "c \<subseteq> exclude_loop id_of tr es c"
proof (induction es arbitrary: c)
  case Nil
  then show ?case by simp
next
  case (Cons e es)
  show ?case
  proof (cases "id_of e \<in> c")
    case True
    with Cons.IH [of c] show ?thesis by simp
  next
    case False
    with Cons.IH [of "c \<union> id_of ` set (list_dps_all (tr e) {})"] show ?thesis by auto
  qed
qed

lemma exclude_loop_covers:
  assumes wf: "\<And>e. e \<in> set all \<Longrightarrow> wf_graph id_of (tr e)"
    and trans: "\<And>e e'. e \<in> set all \<Longrightarrow> e' \<in> set all \<Longrightarrow> id_of e \<in> keys_of (tr e')
                  \<Longrightarrow> keys_of (tr e) \<subseteq> keys_of (tr e')"
  shows "set es \<subseteq> set all \<Longrightarrow>
         (\<forall>e\<in>set all. id_of e \<in> c \<longrightarrow> keys_of (tr e) \<subseteq> c) \<Longrightarrow>
         (\<forall>e\<in>set es. keys_of (tr e) \<subseteq> exclude_loop id_of tr es c)"
proof (induction es arbitrary: c)
  case Nil
  then show ?case by simp
next
  case (Cons e es)
  from Cons.prems(1) have e: "e \<in> set all" and es: "set es \<subseteq> set all" by auto
  show ?case
  proof (cases "id_of e \<in> c")
    case True
    with Cons.prems(2) e have "keys_of (tr e) \<subseteq> c" by blast
    then have "keys_of (tr e) \<subseteq> exclude_loop id_of tr es c"
      using exclude_loop_mono [of c id_of tr es] by blast
    with Cons.IH [OF es Cons.prems(2)] True show ?thesis by simp
  next
    case False
    let ?c = "c \<union> id_of ` set (list_dps_all (tr e) {})"
    have k: "id_of ` set (list_dps_all (tr e) {}) = keys_of (tr e)"
      using wf [OF e] by (rule list_dps_all_complete)
    have inv: "\<forall>x\<in>set all. id_of x \<in> ?c \<longrightarrow> keys_of (tr x) \<subseteq> ?c"
    proof (intro ballI impI)
      fix x assume x: "x \<in> set all" and m: "id_of x \<in> ?c"
      show "keys_of (tr x) \<subseteq> ?c"
      proof (cases "id_of x \<in> c")
        case True
        with Cons.prems(2) x show ?thesis by blast
      next
        case False
        with m k have "id_of x \<in> keys_of (tr e)" by simp
        from trans [OF x e this] k show ?thesis by blast
      qed
    qed
    have "keys_of (tr e) \<subseteq> ?c" using k by simp
    then have "keys_of (tr e) \<subseteq> exclude_loop id_of tr es ?c"
      using exclude_loop_mono [of ?c id_of tr es] by blast
    with Cons.IH [OF es inv] False show ?thesis by simp
  qed
qed

lemma bfs_levels_depth:
  "set fr \<subseteq> set (at_depth j G) \<Longrightarrow>
     \<forall>k<length (bfs_levels fr c). set (bfs_levels fr c ! k) \<subseteq> set (at_depth (j + k) G)"
proof (induction fr c arbitrary: j rule: bfs_levels.induct)
  case (1 fr c)
  show ?case
  proof (cases "fr = []")
    case True
    then show ?thesis by (simp add: bfs_levels.simps)
  next
    case False
    from expand_new [of fr "[]" c] obtain nf where nf:
      "expand fr ([], c) = (nf, c \<union> fst ` set nf)"
      "set nf \<subseteq> (\<Union>e\<in>set fr. set (items (snd (snd e))))" by auto
    define rest where "rest = bfs_levels nf (c \<union> fst ` set nf)"
    have eq: "bfs_levels fr c = fr # rest"
      unfolding rest_def using False nf(1) by (subst bfs_levels.simps) (simp add: Let_def)
    have "set nf \<subseteq> set (at_depth (Suc j) G)"
      using nf(2) 1(2) by (fastforce simp: case_prod_unfold)
    from 1(1) [OF False, of "expand fr ([], c)" "Suc j"] nf(1) this
    have ih: "\<forall>k<length rest. set (rest ! k) \<subseteq> set (at_depth (Suc j + k) G)"
      unfolding rest_def by simp
    show ?thesis unfolding eq
    proof (intro allI impI)
      fix k assume k: "k < length (fr # rest)"
      show "set ((fr # rest) ! k) \<subseteq> set (at_depth (j + k) G)"
      proof (cases k)
        case 0
        with 1(2) show ?thesis by simp
      next
        case (Suc m)
        with k ih show ?thesis by simp
      qed
    qed
  qed
qed


text \<open>
  Claim C5. The exclusion set es is given as a list of pipes, as one pipe, or not at
  all. For a graph whose keys are the identities of its pipes, when the traversal of
  every excluded pipe is well formed, has the excluded pipe at its top, and contains
  the traversal of every excluded pipe it reaches, listAll lists no pipe twice, lists
  no excluded pipe and no pipe that occurs in the traversal of an excluded pipe (the
  excluded pipes and everything upstream of them), and lists the pipes in breadth-first
  discovery order: level by level, the pipes of level k being entries at depth k of
  the graph.
\<close>

theorem list_dps_breadth_first:
  assumes keys: "list_all (\<lambda>(dp_id, dp, sub). dp_id = id_of dp) (all_entries graph)"
    and ex: "ex = DataPipes es \<or> (ex = OneDataPipe e0 \<and> es = [e0]) \<or> (ex = NoExclude \<and> es = [])"
    and tr: "\<forall>e\<in>set es.
               wf_graph id_of (traverse_dps e)
               \<and> id_of e \<in> fst ` set (items (traverse_dps e))
               \<and> (\<forall>e'\<in>set es. id_of e \<in> keys_of (traverse_dps e')
                     \<longrightarrow> keys_of (traverse_dps e) \<subseteq> keys_of (traverse_dps e'))"
  shows "distinct (map id_of (list_dps id_of traverse_dps graph ex))
       \<and> (\<forall>d\<in>set (list_dps id_of traverse_dps graph ex).
            \<forall>e\<in>set es. d \<noteq> e \<and> id_of d \<notin> keys_of (traverse_dps e))
       \<and> list_dps id_of traverse_dps graph ex
            = map (fst \<circ> snd) (concat (list_dps_levels id_of traverse_dps graph ex))
       \<and> (\<forall>k<length (list_dps_levels id_of traverse_dps graph ex).
            set (list_dps_levels id_of traverse_dps graph ex ! k) \<subseteq> set (at_depth k graph))"
proof -
  from ex have el: "exclude_list ex = es" by auto
  define cache where "cache = exclude_loop id_of traverse_dps es {}"
  from enqueue_new [of "items graph" "[]" cache] obtain fr where fr:
    "enqueue (items graph) ([], cache) = (fr, cache \<union> fst ` set fr)" "distinct (map fst fr)"
    "fst ` set fr \<inter> cache = {}" "set fr \<subseteq> set (items graph)" by auto
  define L where "L = concat (bfs_levels fr (cache \<union> fst ` set fr))"
  have lv: "list_dps_levels id_of traverse_dps graph ex = bfs_levels fr (cache \<union> fst ` set fr)"
    unfolding list_dps_levels_def Let_def el cache_def [symmetric] fr(1) by simp
  have res: "list_dps id_of traverse_dps graph ex = map (fst \<circ> snd) L"
    unfolding list_dps_def el cache_def [symmetric] L_def
    using list_dps_all_levels [of graph cache] fr(1) by simp
  from bfs_levels_keys [OF fr(2), of "cache \<union> fst ` set fr"]
  have dk: "distinct (map fst L)" and sk: "fst ` set L \<subseteq> fst ` set fr \<union> (- (cache \<union> fst ` set fr))"
    unfolding L_def by auto
  have sub: "set fr \<subseteq> set (all_entries graph)" using fr(4) items_in_all_entries by blast
  have Lsub: "set L \<subseteq> set (all_entries graph)" unfolding L_def using sub by (rule bfs_levels_sub)
  have key: "\<And>e. e \<in> set L \<Longrightarrow> id_of (fst (snd e)) = fst e"
  proof -
    fix e assume "e \<in> set L"
    with Lsub have "e \<in> set (all_entries graph)" by blast
    with keys show "id_of (fst (snd e)) = fst e" by (auto simp: list_all_iff)
  qed
  have eqm: "map id_of (map (fst \<circ> snd) L) = map fst L" using key by (simp add: comp_def)
  have A: "distinct (map id_of (list_dps id_of traverse_dps graph ex))"
    unfolding res eqm by (rule dk)
  have nc: "fst ` set L \<inter> cache = {}" using sk fr(3) by blast
  have cov: "\<forall>e\<in>set es. keys_of (traverse_dps e) \<subseteq> cache"
    unfolding cache_def
  proof (rule exclude_loop_covers [where all = es])
    fix e assume "e \<in> set es"
    with tr show "wf_graph id_of (traverse_dps e)" by blast
  next
    fix e e' assume "e \<in> set es" "e' \<in> set es" "id_of e \<in> keys_of (traverse_dps e')"
    with tr show "keys_of (traverse_dps e) \<subseteq> keys_of (traverse_dps e')" by blast
  qed simp_all
  have root: "\<forall>e\<in>set es. id_of e \<in> keys_of (traverse_dps e)"
  proof
    fix e assume "e \<in> set es"
    with tr have "id_of e \<in> fst ` set (items (traverse_dps e))" by blast
    with items_in_all_entries [of "traverse_dps e"] show "id_of e \<in> keys_of (traverse_dps e)"
      unfolding keys_of_def by blast
  qed
  have B: "\<forall>d\<in>set (list_dps id_of traverse_dps graph ex).
            \<forall>e\<in>set es. d \<noteq> e \<and> id_of d \<notin> keys_of (traverse_dps e)"
  proof (intro ballI)
    fix d e assume d: "d \<in> set (list_dps id_of traverse_dps graph ex)"
      and e: "e \<in> set es"
    from d obtain x where x: "x \<in> set L" "d = fst (snd x)" unfolding res by auto
    with key have "id_of d = fst x" by simp
    with x(1) nc have "id_of d \<notin> cache" by blast
    with cov e have n: "id_of d \<notin> keys_of (traverse_dps e)" by blast
    with root e have "d \<noteq> e" by blast
    with n show "d \<noteq> e \<and> id_of d \<notin> keys_of (traverse_dps e)" by simp
  qed
  have C: "list_dps id_of traverse_dps graph ex
            = map (fst \<circ> snd) (concat (list_dps_levels id_of traverse_dps graph ex))"
    unfolding lv res L_def ..
  have "set fr \<subseteq> set (at_depth 0 graph)" using fr(4) by simp
  from bfs_levels_depth [OF this, of "cache \<union> fst ` set fr"]
  have D: "\<forall>k<length (list_dps_levels id_of traverse_dps graph ex).
            set (list_dps_levels id_of traverse_dps graph ex ! k) \<subseteq> set (at_depth k graph)"
    unfolding lv by simp
  from A B C D show ?thesis by blast
qed

lemma diamond_list: "list_dps (\<lambda>p. p) diamond_traverse (diamond_traverse 1) (OneDataPipe 2) = [1, 3]"
  by (simp add: list_dps_def list_dps_all_def diamond_traverse_def Let_def)

lemma diamond_wf_source: "wf_graph (\<lambda>p. p) (diamond_traverse 4)"
  by (simp add: wf_graph_def diamond_traverse_def)

lemma diamond_wf3: "wf_graph (\<lambda>p. p) (diamond_traverse 3)"
  by (simp add: wf_graph_def diamond_traverse_def)

lemma diamond_keys:
  "keys_of (diamond_traverse 2) = {2, 4}" "keys_of (diamond_traverse 3) = {3, 4}"
  "keys_of (diamond_traverse 4) = {4}"
  by (auto simp: keys_of_def diamond_traverse_def)

lemma diamond_list_pair:
  "list_dps (\<lambda>p. p) diamond_traverse (diamond_traverse 1) (DataPipes [2, 4]) = [1, 3]"
  by (simp add: list_dps_def list_dps_all_def diamond_traverse_def Let_def)

lemma diamond_list_both:
  "list_dps (\<lambda>p. p) diamond_traverse (diamond_traverse 1) (DataPipes [3, 2]) = [1]"
  by (simp add: list_dps_def list_dps_all_def diamond_traverse_def Let_def)

theorem list_dps_breadth_first_witness:
  "list_dps (\<lambda>p. p) diamond_traverse (diamond_traverse 1) (DataPipes [2, 4]) = [1, 3]
   \<and> list_dps (\<lambda>p. p) diamond_traverse (diamond_traverse 1) (DataPipes [3, 2]) = [1]
   \<and> list_dps (\<lambda>p. p) diamond_traverse (diamond_traverse 1) (OneDataPipe 2) = [1, 3]
   \<and> distinct (map (\<lambda>p. p) (list_dps (\<lambda>p. p) diamond_traverse (diamond_traverse 1) (DataPipes [2, 4])))
   \<and> set (list_dps (\<lambda>p. p) diamond_traverse (diamond_traverse 1) (DataPipes [2, 4]))
        \<inter> (set [2, 4] \<union> keys_of (diamond_traverse 2) \<union> keys_of (diamond_traverse 4)) = {}
   \<and> set (list_dps (\<lambda>p. p) diamond_traverse (diamond_traverse 1) (DataPipes [3, 2]))
        \<inter> (set [3, 2] \<union> keys_of (diamond_traverse 3) \<union> keys_of (diamond_traverse 2)) = {}
   \<and> set (list_dps (\<lambda>p. p) diamond_traverse (diamond_traverse 1) (OneDataPipe 2))
        \<inter> (set [2] \<union> keys_of (diamond_traverse 2)) = {}
   \<and> keys_of (diamond_traverse 2) = {2, 4} \<and> keys_of (diamond_traverse 3) = {3, 4}
   \<and> keys_of (diamond_traverse 4) = {4}"
proof -
  have k: "list_all (\<lambda>(dp_id, dp, sub). dp_id = dp) (all_entries (diamond_traverse 1))"
    by (simp add: diamond_traverse_def)
  have r: "2 \<in> fst ` set (items (diamond_traverse 2))" "3 \<in> fst ` set (items (diamond_traverse 3))"
    "4 \<in> fst ` set (items (diamond_traverse 4))"
    by (simp_all add: diamond_traverse_def)
  have e1: "DataPipes [2, 4] = DataPipes [2, 4::nat]
      \<or> (DataPipes [2, 4] = OneDataPipe (0::nat) \<and> [2, 4] = [0::nat])
      \<or> (DataPipes [2, 4::nat] = NoExclude \<and> [2, 4::nat] = [])" by simp
  have t1: "\<forall>e\<in>set [2, 4::nat].
               wf_graph (\<lambda>p. p) (diamond_traverse e)
               \<and> e \<in> fst ` set (items (diamond_traverse e))
               \<and> (\<forall>e'\<in>set [2, 4]. e \<in> keys_of (diamond_traverse e')
                     \<longrightarrow> keys_of (diamond_traverse e) \<subseteq> keys_of (diamond_traverse e'))"
    using diamond_wf2 diamond_wf_source r by (simp add: diamond_keys)
  note th1 = list_dps_breadth_first [where id_of = "\<lambda>p. p" and graph = "diamond_traverse 1"
      and ex = "DataPipes [2, 4]" and es = "[2, 4]" and ?e0.0 = 0
      and traverse_dps = diamond_traverse, OF k e1 t1]
  have e2: "DataPipes [3, 2] = DataPipes [3, 2::nat]
      \<or> (DataPipes [3, 2] = OneDataPipe (0::nat) \<and> [3, 2] = [0::nat])
      \<or> (DataPipes [3, 2::nat] = NoExclude \<and> [3, 2::nat] = [])" by simp
  have t2: "\<forall>e\<in>set [3, 2::nat].
               wf_graph (\<lambda>p. p) (diamond_traverse e)
               \<and> e \<in> fst ` set (items (diamond_traverse e))
               \<and> (\<forall>e'\<in>set [3, 2]. e \<in> keys_of (diamond_traverse e')
                     \<longrightarrow> keys_of (diamond_traverse e) \<subseteq> keys_of (diamond_traverse e'))"
    using diamond_wf2 diamond_wf3 r by (simp add: diamond_keys)
  note th2 = list_dps_breadth_first [where id_of = "\<lambda>p. p" and graph = "diamond_traverse 1"
      and ex = "DataPipes [3, 2]" and es = "[3, 2]" and ?e0.0 = 0
      and traverse_dps = diamond_traverse, OF k e2 t2]
  have e3: "OneDataPipe 2 = DataPipes [2::nat]
      \<or> (OneDataPipe 2 = OneDataPipe (2::nat) \<and> [2] = [2::nat])
      \<or> (OneDataPipe (2::nat) = NoExclude \<and> [2::nat] = [])" by simp
  have t3: "\<forall>e\<in>set [2::nat].
               wf_graph (\<lambda>p. p) (diamond_traverse e)
               \<and> e \<in> fst ` set (items (diamond_traverse e))
               \<and> (\<forall>e'\<in>set [2]. e \<in> keys_of (diamond_traverse e')
                     \<longrightarrow> keys_of (diamond_traverse e) \<subseteq> keys_of (diamond_traverse e'))"
    using diamond_wf2 r by simp
  note th3 = list_dps_breadth_first [where id_of = "\<lambda>p. p" and graph = "diamond_traverse 1"
      and ex = "OneDataPipe 2" and es = "[2]" and ?e0.0 = 2
      and traverse_dps = diamond_traverse, OF k e3 t3]
  from th1 have d: "distinct (map (\<lambda>p. p)
      (list_dps (\<lambda>p. p) diamond_traverse (diamond_traverse 1) (DataPipes [2, 4])))" by blast
  from th1 have x1: "\<forall>d\<in>set (list_dps (\<lambda>p. p) diamond_traverse (diamond_traverse 1) (DataPipes [2, 4])).
        \<forall>e\<in>set [2, 4]. d \<noteq> e \<and> d \<notin> keys_of (diamond_traverse e)" by blast
  from th2 have x2: "\<forall>d\<in>set (list_dps (\<lambda>p. p) diamond_traverse (diamond_traverse 1) (DataPipes [3, 2])).
        \<forall>e\<in>set [3, 2]. d \<noteq> e \<and> d \<notin> keys_of (diamond_traverse e)" by blast
  from th3 have x3: "\<forall>d\<in>set (list_dps (\<lambda>p. p) diamond_traverse (diamond_traverse 1) (OneDataPipe 2)).
        \<forall>e\<in>set [2]. d \<noteq> e \<and> d \<notin> keys_of (diamond_traverse e)" by blast
  from x1 have y1: "set (list_dps (\<lambda>p. p) diamond_traverse (diamond_traverse 1) (DataPipes [2, 4]))
        \<inter> (set [2, 4] \<union> keys_of (diamond_traverse 2) \<union> keys_of (diamond_traverse 4)) = {}"
    by auto
  from x2 have y2: "set (list_dps (\<lambda>p. p) diamond_traverse (diamond_traverse 1) (DataPipes [3, 2]))
        \<inter> (set [3, 2] \<union> keys_of (diamond_traverse 3) \<union> keys_of (diamond_traverse 2)) = {}"
    by auto
  from x3 have y3: "set (list_dps (\<lambda>p. p) diamond_traverse (diamond_traverse 1) (OneDataPipe 2))
        \<inter> (set [2] \<union> keys_of (diamond_traverse 2)) = {}"
    by auto
  from d y1 y2 y3 diamond_list_pair diamond_list_both diamond_list diamond_keys
  show ?thesis by blast
qed

section \<open>Properties of the deep attribute rewriter\<close>

lemma assign_attr0_flat:
  "flat v \<Longrightarrow> assign_attr0 old_dp new_dp v = (v, Inr (if v = Ref old_dp then Some (Ref new_dp) else None))"
  by (cases v) auto

lemma tuple_loop0_flat:
  "list_all flat os \<Longrightarrow>
     tuple_loop0 old_dp new_dp os
       = (os, map (\<lambda>x. if x = Ref old_dp then Ref new_dp else x) os, Ref old_dp \<in> set os, None)"
proof (induction os)
  case Nil
  then show ?case by simp
next
  case (Cons x os)
  then have "flat x" "list_all flat os" by simp_all
  with Cons.IH assign_attr0_flat [of x old_dp new_dp] show ?case by auto
qed

lemma assign_attr0_simple:
  assumes "simple v"
  shows "assign_attr0 old_dp new_dp v
           = (v, Inr (if holds old_dp v then Some (substitute old_dp new_dp v) else None))"
proof (cases v)
  case (Tuple os)
  with assms have "list_all flat os" by simp
  from tuple_loop0_flat [OF this] Tuple show ?thesis by simp
qed (use assms in auto)

lemma list_loop0_simple:
  "list_all simple os \<Longrightarrow> list_loop0 old_dp new_dp os = (first_wins old_dp new_dp os, None)"
proof (induction os)
  case Nil
  then show ?case by simp
next
  case (Cons x os)
  then have "simple x" "list_all simple os" by simp_all
  with Cons.IH assign_attr0_simple [of x old_dp new_dp] show ?case by simp
qed



lemma first_wins_length [simp]: "length (first_wins old_dp new_dp os) = length os"
  by (induction os) auto



























section \<open>Properties of replace_dp\<close>









lemma map_fst_zip_first_wins [simp]:
  "map fst (zip (map fst attrs) (first_wins old_dp new_dp (map snd attrs))) = map fst attrs"
  "map snd (zip (map fst attrs) (first_wins old_dp new_dp (map snd attrs))) = first_wins old_dp new_dp (map snd attrs)"
  by simp_all







lemma rewritten_empty [simp]: "rewritten old_dp new_dp {} h = h"
  by (simp add: rewritten_def)


lemma refs_of_list_append [simp]: "refs_of_list (xs @ ys) = refs_of_list xs @ refs_of_list ys"
  by (induction xs) auto






















lemma keys_of_Cons:
  "fst ` set (all_entries_items ((i, d, sub) # es))
     = insert i (keys_of sub \<union> fst ` set (all_entries_items es))"
  by (auto simp: keys_of_def)



lemma receivers_empty:
  "old_dp \<notin> keys_of g \<Longrightarrow> receivers old_dp r g = {}"
  "old_dp \<notin> fst ` set (all_entries_items es) \<Longrightarrow> receivers_items old_dp r1 es = {}"
proof (induction old_dp r g and old_dp r1 es rule: receivers_receivers_items.induct)
  case (1 old_dp recv_dp es)
  then show ?case by (simp add: keys_of_Graph)
next
  case (2 old_dp recv_dp)
  then show ?case by simp
next
  case (3 old_dp recv_dp send_id send_dp sub es)
  from 3(3) have "old_dp \<noteq> send_id" "old_dp \<notin> keys_of sub"
    "old_dp \<notin> fst ` set (all_entries_items es)" unfolding keys_of_Cons by auto
  with 3(1,2) show ?case by auto
qed











lemma faithful_topI: "faithful h p sub \<Longrightarrow> faithful_top h p (Graph [(p, p, sub)])"
  by (simp add: faithful_top_def)






lemma pipeline_heap_at [simp]:
  "pipeline_heap 5 = [(''datapipes'', Tuple [Ref 2, Ref 3])]"
  "pipeline_heap 2 = [(''source_datapipe'', Ref 4), (''fn'', Atom ''f'')]"
  "pipeline_heap 3 = [(''source_datapipe'', Ref 4)]"
  "pipeline_heap 4 = []"
  "pipeline_heap 8 = [(''source_datapipe'', Ref 5)]"
  "pipeline_heap 9 = [(''source_datapipe'', Ref 4)]"
  by (simp_all add: pipeline_heap_def empty_heap_def)







lemma zip_heap_at [simp]: "zip_heap 5 = [(''datapipes'', Tuple [Ref 2, Ref 3])]"
  "zip_heap 2 = []" "zip_heap 3 = []"
  by (simp_all add: zip_heap_def empty_heap_def)



end
